theory Spec2Isabelle
  imports Complex_Main "HOL-Library.Monad_Syntax" "HOL-Library.AList"
begin

section \<open>The evaluation graph of \<^verbatim>\<open>evaluation.h\<close>\<close>

subsection \<open>Numbers\<close>

text \<open>
  The program stores every value in a C++ \<^verbatim>\<open>double\<close>. The only operation the header
  applies to a double is \<^verbatim>\<open>std::isnan\<close>; everything else is done by the functions
  the caller hands to the operator nodes. A double is therefore modelled as either
  not-a-number or a number. Rounding and the infinities belong to the caller's
  functions and are outside this model.
\<close>

datatype double = NaN | Num real

fun isnan :: "double \<Rightarrow> bool" where
  "isnan NaN = True"
| "isnan (Num x) = False"

subsection \<open>Nodes and the heap\<close>

text \<open>
  Nodes live behind \<^verbatim>\<open>std::shared_ptr\<close> and are shared between operators, expressions
  and the context, so they are kept in an explicit heap. An address is the index of the
  node in the heap, in order of allocation; a pointer is an address or null.
\<close>

type_synonym addr = nat
type_synonym ptr = "addr option"

text \<open>
  The subclasses of \<^verbatim>\<open>EvalNode\<close> with their own fields. \<^verbatim>\<open>VariableNode\<close> carries
  \<^verbatim>\<open>d_needCalc\<close> and \<^verbatim>\<open>d_name\<close>; the operators carry their operand pointers and their
  function. A \<^verbatim>\<open>std::function\<close> either returns a double or throws: the function of an
  operator returns \<open>Inr\<close> of its result or \<open>Inl\<close> of a label of what it throws. It has no
  other effect.
\<close>

datatype variant =
    ExpressionNode ptr string
  | ConstantNode
  | VariableNode bool string
  | UnaryOperatorNode ptr "double \<Rightarrow> string + double"
  | BinaryOperatorNode ptr ptr "double \<Rightarrow> double \<Rightarrow> string + double"

record EvalNode =
  d_cachedValue :: double
  variant :: variant

type_synonym heap = "EvalNode list"

text \<open>Dereferencing: a null or dangling pointer has no node.\<close>

definition deref :: "heap \<Rightarrow> ptr \<Rightarrow> EvalNode option" where
  "deref h p = (case p of None \<Rightarrow> None
                | Some a \<Rightarrow> if a < length h then Some (h ! a) else None)"

text \<open>
  The exceptions that leave a call: the two of the header, both
  \<^verbatim>\<open>std::runtime_error\<close>, \<^verbatim>\<open>"Variable not set"\<close> and \<^verbatim>\<open>"Not found"\<close>, and whatever an
  operator function throws, which passes through the header unchanged.
\<close>

datatype error = NotSet | NotFound | Thrown string

text \<open>
  The call \<^verbatim>\<open>d_function(d_leftNode->eval(), d_rightNode->eval())\<close> evaluates both
  arguments before the function is entered, and C++ leaves their order open. The order
  the compiled code takes is a parameter of the model.
\<close>

datatype arg_order = LeftFirst | RightFirst

text \<open>The call of an operator function with the outcomes of the operands at hand.\<close>

definition raise_or :: "string + double \<Rightarrow> (error + double) option" where
  "raise_or r = (case r of Inl m \<Rightarrow> Some (Inl (Thrown m)) | Inr y \<Rightarrow> Some (Inr y))"

subsection \<open>\<^verbatim>\<open>eval\<close>, \<^verbatim>\<open>needCalc\<close> and \<^verbatim>\<open>calc\<close>\<close>

text \<open>
  \<^verbatim>\<open>eval()\<close> is the virtual recomputation rule. It is \<^verbatim>\<open>const\<close> and writes no field, so
  it is a function of the heap. An operator calls \<^verbatim>\<open>eval()\<close> of its operands, not
  \<^verbatim>\<open>calc()\<close>. The result \<open>None\<close> stands for a call with no outcome: a null pointer is
  dereferenced or the recursion does not end. \<open>Some (Inl e)\<close> is the exception \<open>e\<close>. An
  exception of an operand leaves the call at once: the other operand, if it comes
  later in the order, and the function are not reached.
\<close>

partial_function (option) eval :: "arg_order \<Rightarrow> heap \<Rightarrow> ptr \<Rightarrow> (error + double) option" where
  "eval ord h p =
    (case deref h p of
       None \<Rightarrow> None
     | Some n \<Rightarrow>
        (case variant n of
           ExpressionNode e nm \<Rightarrow> eval ord h e
         | ConstantNode \<Rightarrow> Some (Inr (d_cachedValue n))
         | VariableNode d nm \<Rightarrow>
             if isnan (d_cachedValue n) then Some (Inl NotSet)
             else Some (Inr (d_cachedValue n))
         | UnaryOperatorNode q f \<Rightarrow>
             do { r \<leftarrow> eval ord h q;
                  case r of Inl e \<Rightarrow> Some (Inl e) | Inr x \<Rightarrow> raise_or (f x) }
         | BinaryOperatorNode l r f \<Rightarrow>
             (case ord of
                LeftFirst \<Rightarrow>
                  do { rl \<leftarrow> eval ord h l;
                       case rl of
                         Inl e \<Rightarrow> Some (Inl e)
                       | Inr x \<Rightarrow>
                           do { rr \<leftarrow> eval ord h r;
                                case rr of Inl e \<Rightarrow> Some (Inl e)
                                         | Inr y \<Rightarrow> raise_or (f x y) } }
              | RightFirst \<Rightarrow>
                  do { rr \<leftarrow> eval ord h r;
                       case rr of
                         Inl e \<Rightarrow> Some (Inl e)
                       | Inr y \<Rightarrow>
                           do { rl \<leftarrow> eval ord h l;
                                case rl of Inl e \<Rightarrow> Some (Inl e)
                                         | Inr x \<Rightarrow> raise_or (f x y) } })))"

text \<open>\<^verbatim>\<open>needCalc()\<close>: the \<^verbatim>\<open>||\<close> of the binary operator skips the right operand when the
  left one is dirty.\<close>

partial_function (option) needCalc :: "heap \<Rightarrow> ptr \<Rightarrow> bool option" where
  "needCalc h p =
    (case deref h p of
       None \<Rightarrow> None
     | Some n \<Rightarrow>
        (case variant n of
           ExpressionNode e nm \<Rightarrow> needCalc h e
         | ConstantNode \<Rightarrow> Some False
         | VariableNode d nm \<Rightarrow> Some d
         | UnaryOperatorNode q f \<Rightarrow> needCalc h q
         | BinaryOperatorNode l r f \<Rightarrow>
             do { b \<leftarrow> needCalc h l; if b then Some True else needCalc h r }))"

text \<open>
  The state a call of \<^verbatim>\<open>calc()\<close> can change: the heap, and the lines written to
  \<^verbatim>\<open>std::cout\<close>. Of the output only the line \<^verbatim>\<open>Using cache\<close> of \<^verbatim>\<open>calc()\<close> is modelled.
\<close>

record world =
  heap :: heap
  cout :: "string list"

text \<open>
  \<^verbatim>\<open>EvalNode::calc()\<close>. \<^verbatim>\<open>std::isnan(d_cachedValue) || needCalc()\<close> does not call
  \<^verbatim>\<open>needCalc()\<close> when the cached value is NaN. An exception of \<^verbatim>\<open>eval()\<close> leaves the
  node as it was.
\<close>

definition calc :: "arg_order \<Rightarrow> world \<Rightarrow> ptr \<Rightarrow> ((error + double) \<times> world) option" where
  "calc ord s p =
    (case p of
       None \<Rightarrow> None
     | Some a \<Rightarrow>
        if a < length (heap s) then
          do { stale \<leftarrow> (if isnan (d_cachedValue (heap s ! a)) then Some True
                         else needCalc (heap s) p);
               if stale then
                 do { r \<leftarrow> eval ord (heap s) p;
                      case r of
                        Inl e \<Rightarrow> Some (Inl e, s)
                      | Inr v \<Rightarrow>
                          Some (Inr v,
                                s\<lparr>heap := (heap s)[a := (heap s ! a)\<lparr>d_cachedValue := v\<rparr>]\<rparr>) }
               else
                 Some (Inr (d_cachedValue (heap s ! a)),
                       s\<lparr>cout := cout s @ [''Using cache'']\<rparr>) }
        else None)"

subsection \<open>Construction and the methods of \<^verbatim>\<open>VariableNode\<close>\<close>

text \<open>\<^verbatim>\<open>std::make_shared\<close>: the new node gets the next address.\<close>

definition alloc :: "heap \<Rightarrow> EvalNode \<Rightarrow> ptr \<times> heap" where
  "alloc h n = (Some (length h), h @ [n])"

definition make_ConstantNode :: "double \<Rightarrow> heap \<Rightarrow> ptr \<times> heap" where
  "make_ConstantNode v h = alloc h \<lparr>d_cachedValue = v, variant = ConstantNode\<rparr>"

definition make_VariableNode :: "string \<Rightarrow> heap \<Rightarrow> ptr \<times> heap" where
  "make_VariableNode nm h = alloc h \<lparr>d_cachedValue = NaN, variant = VariableNode True nm\<rparr>"

definition make_UnaryOperatorNode ::
  "ptr \<Rightarrow> (double \<Rightarrow> string + double) \<Rightarrow> heap \<Rightarrow> ptr \<times> heap" where
  "make_UnaryOperatorNode q f h =
     alloc h \<lparr>d_cachedValue = NaN, variant = UnaryOperatorNode q f\<rparr>"

definition make_BinaryOperatorNode ::
  "ptr \<Rightarrow> ptr \<Rightarrow> (double \<Rightarrow> double \<Rightarrow> string + double) \<Rightarrow> heap \<Rightarrow> ptr \<times> heap" where
  "make_BinaryOperatorNode l r f h =
     alloc h \<lparr>d_cachedValue = NaN, variant = BinaryOperatorNode l r f\<rparr>"

definition make_ExpressionNode :: "string \<Rightarrow> ptr \<Rightarrow> heap \<Rightarrow> ptr \<times> heap" where
  "make_ExpressionNode nm e h =
     alloc h \<lparr>d_cachedValue = NaN, variant = ExpressionNode e nm\<rparr>"

text \<open>
  \<^verbatim>\<open>VariableNode::set\<close> and \<^verbatim>\<open>VariableNode::cache\<close>. Both are members of
  \<^verbatim>\<open>VariableNode\<close>: on a null pointer or on a node of another class there is no call.
\<close>

definition VariableNode_set :: "heap \<Rightarrow> ptr \<Rightarrow> double \<Rightarrow> heap option" where
  "VariableNode_set h p v =
    (case p of
       None \<Rightarrow> None
     | Some a \<Rightarrow>
        if a < length h then
          (case variant (h ! a) of
             VariableNode d nm \<Rightarrow>
               Some (h[a := \<lparr>d_cachedValue = v, variant = VariableNode True nm\<rparr>])
           | _ \<Rightarrow> None)
        else None)"

definition VariableNode_cache :: "heap \<Rightarrow> ptr \<Rightarrow> heap option" where
  "VariableNode_cache h p =
    (case p of
       None \<Rightarrow> None
     | Some a \<Rightarrow>
        if a < length h then
          (case variant (h ! a) of
             VariableNode d nm \<Rightarrow>
               Some (h[a := (h ! a)\<lparr>variant := VariableNode False nm\<rparr>])
           | _ \<Rightarrow> None)
        else None)"

subsection \<open>\<^verbatim>\<open>EvaluationContext\<close>\<close>

text \<open>
  The two \<^verbatim>\<open>std::map\<close>s are association lists with one entry per key; the vector
  \<^verbatim>\<open>d_expressions\<close> is a list. The order of the entries of \<^verbatim>\<open>d_variableMap\<close> is the
  order of insertion here and the order of the keys in C++; the only loop over the map
  clears one flag per entry.
\<close>

record EvaluationContext =
  d_expressionMap :: "(string \<times> ptr) list"
  d_variableMap :: "(string \<times> ptr) list"
  d_expressions :: "ptr list"

definition empty_context :: EvaluationContext where
  "empty_context = \<lparr>d_expressionMap = [], d_variableMap = [], d_expressions = []\<rparr>"

definition isKnownExpression :: "EvaluationContext \<Rightarrow> string \<Rightarrow> bool" where
  "isKnownExpression c name = (map_of (d_expressionMap c) name \<noteq> None)"

definition isKnownVariable :: "EvaluationContext \<Rightarrow> string \<Rightarrow> bool" where
  "isKnownVariable c name = (map_of (d_variableMap c) name \<noteq> None)"

text \<open>\<^verbatim>\<open>std::map::operator[]\<close> as a read: a missing key is inserted with a null pointer.\<close>

definition map_index :: "(string \<times> ptr) list \<Rightarrow> string \<Rightarrow> ptr \<times> (string \<times> ptr) list" where
  "map_index m name =
    (case map_of m name of
       Some p \<Rightarrow> (p, m)
     | None \<Rightarrow> (None, AList.update name None m))"

definition getExpression :: "EvaluationContext \<Rightarrow> string \<Rightarrow> ptr \<times> EvaluationContext" where
  "getExpression c name =
    (case map_index (d_expressionMap c) name of
       (p, m) \<Rightarrow> (p, c\<lparr>d_expressionMap := m\<rparr>))"

definition getVariable :: "EvaluationContext \<Rightarrow> string \<Rightarrow> ptr \<times> EvaluationContext" where
  "getVariable c name =
    (case map_index (d_variableMap c) name of
       (p, m) \<Rightarrow> (p, c\<lparr>d_variableMap := m\<rparr>))"

definition addExpression :: "EvaluationContext \<Rightarrow> string \<Rightarrow> ptr \<Rightarrow> EvaluationContext" where
  "addExpression c name expression =
     c\<lparr>d_expressionMap := AList.update name expression (d_expressionMap c),
       d_expressions := d_expressions c @ [expression]\<rparr>"

definition addVariable :: "EvaluationContext \<Rightarrow> string \<Rightarrow> ptr \<Rightarrow> EvaluationContext" where
  "addVariable c name variable =
     c\<lparr>d_variableMap := AList.update name variable (d_variableMap c)\<rparr>"

text \<open>The first loop of \<^verbatim>\<open>EvaluationContext::calc\<close>: an exception ends it.\<close>

fun calc_all :: "arg_order \<Rightarrow> ptr list \<Rightarrow> world \<Rightarrow> ((error + unit) \<times> world) option" where
  "calc_all ord [] s = Some (Inr (), s)"
| "calc_all ord (p # ps) s =
    (case calc ord s p of
       None \<Rightarrow> None
     | Some (Inl e, s') \<Rightarrow> Some (Inl e, s')
     | Some (Inr v, s') \<Rightarrow> calc_all ord ps s')"

text \<open>The second loop: \<^verbatim>\<open>kv.second->cache()\<close> for every entry of the variable map.\<close>

fun cache_all :: "(string \<times> ptr) list \<Rightarrow> heap \<Rightarrow> heap option" where
  "cache_all [] h = Some h"
| "cache_all (kv # kvs) h =
    (case VariableNode_cache h (snd kv) of
       None \<Rightarrow> None
     | Some h' \<Rightarrow> cache_all kvs h')"

text \<open>
  \<^verbatim>\<open>EvaluationContext::calc\<close>. The last line indexes an existing key, so the context
  itself is not changed.
\<close>

definition EvaluationContext_calc ::
  "arg_order \<Rightarrow> EvaluationContext \<Rightarrow> world \<Rightarrow> string \<Rightarrow> ((error + double) \<times> world) option" where
  "EvaluationContext_calc ord c s expression_name =
    (case calc_all ord (d_expressions c) s of
       None \<Rightarrow> None
     | Some (Inl e, s1) \<Rightarrow> Some (Inl e, s1)
     | Some (Inr u, s1) \<Rightarrow>
        (case cache_all (d_variableMap c) (heap s1) of
           None \<Rightarrow> None
         | Some h2 \<Rightarrow>
            (case map_of (d_expressionMap c) expression_name of
               None \<Rightarrow> Some (Inl NotFound, s1\<lparr>heap := h2\<rparr>)
             | Some p \<Rightarrow> calc ord (s1\<lparr>heap := h2\<rparr>) p)))"

subsection \<open>The shape of the graph\<close>

text \<open>The operand pointers of a node.\<close>

fun operands :: "variant \<Rightarrow> ptr list" where
  "operands (ExpressionNode e nm) = [e]"
| "operands ConstantNode = []"
| "operands (VariableNode d nm) = []"
| "operands (UnaryOperatorNode q f) = [q]"
| "operands (BinaryOperatorNode l r f) = [l, r]"

text \<open>
  A constructor takes its operands as pointers to nodes that exist already, and no
  method reassigns them. In a heap built by the constructors every operand pointer is
  therefore non-null and points to a node allocated earlier.
\<close>

definition wf_heap :: "heap \<Rightarrow> bool" where
  "wf_heap h =
    (\<forall>a < length h. \<forall>p \<in> set (operands (variant (h ! a))). \<exists>b < a. p = Some b)"

text \<open>\<open>reach h a b\<close>: node \<open>b\<close> is node \<open>a\<close> or lies in the operand subgraph of \<open>a\<close>.\<close>

inductive reach :: "heap \<Rightarrow> addr \<Rightarrow> addr \<Rightarrow> bool" for h where
  here: "a < length h \<Longrightarrow> reach h a a"
| below: "a < length h \<Longrightarrow> Some b \<in> set (operands (variant (h ! a))) \<Longrightarrow> reach h b c \<Longrightarrow>
          reach h a c"

text \<open>
  What \<^verbatim>\<open>eval()\<close> can read of a node: of a variable all but the dirty flag, of a constant
  all, of an operator or an expression all but the cached value.
\<close>

definition eval_view :: "EvalNode \<Rightarrow> EvalNode" where
  "eval_view n =
    (case variant n of
       VariableNode d nm \<Rightarrow> n\<lparr>variant := VariableNode False nm\<rparr>
     | ConstantNode \<Rightarrow> n
     | _ \<Rightarrow> n\<lparr>d_cachedValue := NaN\<rparr>)"

text \<open>The function of a node never throws. A node without a function has nothing to throw.\<close>

fun no_throw :: "variant \<Rightarrow> bool" where
  "no_throw (UnaryOperatorNode q f) = (\<forall>x. \<exists>y. f x = Inr y)"
| "no_throw (BinaryOperatorNode l r f) = (\<forall>x y. \<exists>z. f x y = Inr z)"
| "no_throw (ExpressionNode e nm) = True"
| "no_throw ConstantNode = True"
| "no_throw (VariableNode d nm) = True"

text \<open>
  When \<^verbatim>\<open>calc()\<close> recomputes: the cached value is NaN or \<^verbatim>\<open>needCalc()\<close> answers true.
\<close>

definition stale :: "heap \<Rightarrow> addr \<Rightarrow> bool" where
  "stale h a = (isnan (d_cachedValue (h ! a)) \<or> needCalc h (Some a) = Some True)"

text \<open>
  \<open>settled ord h a w\<close>: \<open>w\<close> is the value node \<open>a\<close> holds once \<^verbatim>\<open>calc()\<close> has returned on
  it in heap \<open>h\<close>: what \<^verbatim>\<open>eval()\<close> returns if the node was stale, the value it had
  otherwise.
\<close>

definition settled :: "arg_order \<Rightarrow> heap \<Rightarrow> addr \<Rightarrow> double \<Rightarrow> bool" where
  "settled ord h a w =
    (if stale h a then eval ord h (Some a) = Some (Inr w) else w = d_cachedValue (h ! a))"

subsection \<open>Histories in which a variable is never set\<close>

text \<open>
  \<open>never_set b s\<close>: the state \<open>s\<close> is reached from the empty heap by calls of the
  constructors (with operands that exist), of \<^verbatim>\<open>set\<close>, \<^verbatim>\<open>cache\<close> and \<^verbatim>\<open>calc\<close>, and
  no call is \<^verbatim>\<open>set\<close> on the node at address \<open>b\<close>.
\<close>

inductive never_set :: "addr \<Rightarrow> world \<Rightarrow> bool" for b where
  start: "never_set b \<lparr>heap = [], cout = []\<rparr>"
| mk_constant: "never_set b s \<Longrightarrow> never_set b (s\<lparr>heap := snd (make_ConstantNode v (heap s))\<rparr>)"
| mk_variable: "never_set b s \<Longrightarrow> never_set b (s\<lparr>heap := snd (make_VariableNode nm (heap s))\<rparr>)"
| mk_unary: "never_set b s \<Longrightarrow> q < length (heap s) \<Longrightarrow>
          never_set b (s\<lparr>heap := snd (make_UnaryOperatorNode (Some q) f (heap s))\<rparr>)"
| mk_binary: "never_set b s \<Longrightarrow> l < length (heap s) \<Longrightarrow> r < length (heap s) \<Longrightarrow>
          never_set b (s\<lparr>heap := snd (make_BinaryOperatorNode (Some l) (Some r) g (heap s))\<rparr>)"
| mk_expression: "never_set b s \<Longrightarrow> e < length (heap s) \<Longrightarrow>
          never_set b (s\<lparr>heap := snd (make_ExpressionNode nm (Some e) (heap s))\<rparr>)"
| set_other: "never_set b s \<Longrightarrow> p \<noteq> Some b \<Longrightarrow> VariableNode_set (heap s) p v = Some h' \<Longrightarrow>
          never_set b (s\<lparr>heap := h'\<rparr>)"
| freeze: "never_set b s \<Longrightarrow> VariableNode_cache (heap s) p = Some h' \<Longrightarrow>
          never_set b (s\<lparr>heap := h'\<rparr>)"
| evaluate: "never_set b s \<Longrightarrow> calc ord s p = Some (r', s') \<Longrightarrow> never_set b s'"

text \<open>
  The invariant of such histories: if \<open>b\<close> is a variable, every node that has \<open>b\<close> in
  its operand subgraph, and \<open>b\<close> itself, still has the cached value NaN.
\<close>

definition unset_above :: "addr \<Rightarrow> heap \<Rightarrow> bool" where
  "unset_above b h =
    (\<forall>d nm. variant (h ! b) = VariableNode d nm \<longrightarrow>
       (\<forall>a. reach h a b \<longrightarrow> isnan (d_cachedValue (h ! a))))"

subsection \<open>Example graphs\<close>

text \<open>A heap with one variable named \<^verbatim>\<open>x\<close>, holding \<open>v\<close> with dirty flag \<open>d\<close>.\<close>

definition one_variable :: "double \<Rightarrow> bool \<Rightarrow> heap" where
  "one_variable v d = [\<lparr>d_cachedValue = v, variant = VariableNode d ''x''\<rparr>]"

text \<open>
  A name registered twice: the variable \<^verbatim>\<open>x\<close> (never set) at address 0, a first
  expression \<^verbatim>\<open>E\<close> over it at address 1, the constant 1 at address 2 and a second
  expression \<^verbatim>\<open>E\<close> over the constant at address 3.
\<close>

definition dup_heap :: heap where
  "dup_heap =
    [\<lparr>d_cachedValue = NaN, variant = VariableNode True ''x''\<rparr>,
     \<lparr>d_cachedValue = NaN, variant = ExpressionNode (Some 0) ''E''\<rparr>,
     \<lparr>d_cachedValue = Num 1, variant = ConstantNode\<rparr>,
     \<lparr>d_cachedValue = NaN, variant = ExpressionNode (Some 2) ''E''\<rparr>]"

definition dup_context :: EvaluationContext where
  "dup_context = addExpression empty_context ''E'' (Some 1)"

text \<open>
  Functions for the operator nodes of the examples: sum, product and negation, which
  never throw. They stand for the C++ lambdas on doubles and are used on small
  integers only, where the arithmetic of doubles is exact.
\<close>

definition add :: "double \<Rightarrow> double \<Rightarrow> string + double" where
  "add x y = Inr (case x of NaN \<Rightarrow> NaN
                  | Num a \<Rightarrow> (case y of NaN \<Rightarrow> NaN | Num b \<Rightarrow> Num (a + b)))"

definition mul :: "double \<Rightarrow> double \<Rightarrow> string + double" where
  "mul x y = Inr (case x of NaN \<Rightarrow> NaN
                  | Num a \<Rightarrow> (case y of NaN \<Rightarrow> NaN | Num b \<Rightarrow> Num (a * b)))"

definition neg :: "double \<Rightarrow> string + double" where
  "neg x = Inr (case x of NaN \<Rightarrow> NaN | Num a \<Rightarrow> Num (- a))"

text \<open>
  One node of every class: the variable \<^verbatim>\<open>x\<close> holding 5 and dirty, the constant 2, the
  binary operator over both, a unary operator over the binary one and an expression
  over the unary one.
\<close>

definition sample_heap :: heap where
  "sample_heap =
    [\<lparr>d_cachedValue = Num 5, variant = VariableNode True ''x''\<rparr>,
     \<lparr>d_cachedValue = Num 2, variant = ConstantNode\<rparr>,
     \<lparr>d_cachedValue = NaN, variant = BinaryOperatorNode (Some 0) (Some 1) add\<rparr>,
     \<lparr>d_cachedValue = NaN, variant = UnaryOperatorNode (Some 2) neg\<rparr>,
     \<lparr>d_cachedValue = NaN, variant = ExpressionNode (Some 3) ''E''\<rparr>]"

text \<open>
  The shared-variable scenario: the variable \<^verbatim>\<open>a\<close> at address 0, \<^verbatim>\<open>E1 = a * 2\<close> at
  address 3 and \<^verbatim>\<open>E2 = a * 3\<close> at address 6, both over the same node 0. The parameters
  are the value and the dirty flag of \<^verbatim>\<open>a\<close> and the cached values of the two products
  and the two expressions, so that the heap stands for any state the graph can be in.
\<close>

definition shared_heap ::
  "double \<Rightarrow> bool \<Rightarrow> double \<Rightarrow> double \<Rightarrow> double \<Rightarrow> double \<Rightarrow> heap" where
  "shared_heap va da m1 e1 m2 e2 =
    [\<lparr>d_cachedValue = va, variant = VariableNode da ''a''\<rparr>,
     \<lparr>d_cachedValue = Num 2, variant = ConstantNode\<rparr>,
     \<lparr>d_cachedValue = m1, variant = BinaryOperatorNode (Some 0) (Some 1) mul\<rparr>,
     \<lparr>d_cachedValue = e1, variant = ExpressionNode (Some 2) ''E1''\<rparr>,
     \<lparr>d_cachedValue = Num 3, variant = ConstantNode\<rparr>,
     \<lparr>d_cachedValue = m2, variant = BinaryOperatorNode (Some 0) (Some 4) mul\<rparr>,
     \<lparr>d_cachedValue = e2, variant = ExpressionNode (Some 5) ''E2''\<rparr>]"

definition shared_context :: EvaluationContext where
  "shared_context =
     addExpression (addExpression (addVariable empty_context ''a'' (Some 0))
        ''E1'' (Some 3)) ''E2'' (Some 6)"

text \<open>
  A chain: the variable \<^verbatim>\<open>a\<close> at address 0, its negation at address 1 and the negation
  of that at address 2. The parameters are the value and the flag of \<^verbatim>\<open>a\<close> and the
  cached values of the two operators.
\<close>

definition chain_heap :: "double \<Rightarrow> bool \<Rightarrow> double \<Rightarrow> double \<Rightarrow> heap" where
  "chain_heap va da u p =
    [\<lparr>d_cachedValue = va, variant = VariableNode da ''a''\<rparr>,
     \<lparr>d_cachedValue = u, variant = UnaryOperatorNode (Some 0) neg\<rparr>,
     \<lparr>d_cachedValue = p, variant = UnaryOperatorNode (Some 1) neg\<rparr>]"

text \<open>
  A graph over a variable that is never set: \<^verbatim>\<open>x\<close> at address 0, the constant 2, the
  sum \<^verbatim>\<open>2 + x\<close>, its negation and an expression \<^verbatim>\<open>E\<close> over the negation.
\<close>

definition unset_heap :: heap where
  "unset_heap =
    [\<lparr>d_cachedValue = NaN, variant = VariableNode True ''x''\<rparr>,
     \<lparr>d_cachedValue = Num 2, variant = ConstantNode\<rparr>,
     \<lparr>d_cachedValue = NaN, variant = BinaryOperatorNode (Some 1) (Some 0) add\<rparr>,
     \<lparr>d_cachedValue = NaN, variant = UnaryOperatorNode (Some 2) neg\<rparr>,
     \<lparr>d_cachedValue = NaN, variant = ExpressionNode (Some 3) ''E''\<rparr>]"

text \<open>
  A function that throws: the reciprocal, which throws at zero.
\<close>

definition recip :: "double \<Rightarrow> string + double" where
  "recip x = (case x of NaN \<Rightarrow> Inr NaN
              | Num a \<Rightarrow> if a = 0 then Inl ''division by zero'' else Inr (Num (1 / a)))"

text \<open>
  A graph in which a function throws before the variable that is never set is reached,
  in either order of the operands: the variable \<^verbatim>\<open>x\<close> at address 0, the constant 0 at
  address 1 and its reciprocal at address 2; the sum of the reciprocal and \<^verbatim>\<open>x\<close> at
  address 3, the sum of \<^verbatim>\<open>x\<close> and the reciprocal at address 4, and the sum of these two
  sums at address 5.
\<close>

definition throw_heap :: heap where
  "throw_heap =
    [\<lparr>d_cachedValue = NaN, variant = VariableNode True ''x''\<rparr>,
     \<lparr>d_cachedValue = Num 0, variant = ConstantNode\<rparr>,
     \<lparr>d_cachedValue = NaN, variant = UnaryOperatorNode (Some 1) recip\<rparr>,
     \<lparr>d_cachedValue = NaN, variant = BinaryOperatorNode (Some 2) (Some 0) add\<rparr>,
     \<lparr>d_cachedValue = NaN, variant = BinaryOperatorNode (Some 0) (Some 2) add\<rparr>,
     \<lparr>d_cachedValue = NaN, variant = BinaryOperatorNode (Some 3) (Some 4) add\<rparr>]"

text \<open>
  An expression over a variable that the context does not know: the variable \<^verbatim>\<open>a\<close>,
  set to 5 and dirty, at address 0 and the expression \<^verbatim>\<open>E\<close> over it at address 1, with
  cached value \<open>e\<close>.
\<close>

definition unregistered_heap :: "double \<Rightarrow> heap" where
  "unregistered_heap e =
    [\<lparr>d_cachedValue = Num 5, variant = VariableNode True ''a''\<rparr>,
     \<lparr>d_cachedValue = e, variant = ExpressionNode (Some 0) ''E''\<rparr>]"

text \<open>
  A name registered twice behind an expression that fails: the variable \<^verbatim>\<open>x\<close> (never
  set) at address 0, the expression \<^verbatim>\<open>F\<close> over it at address 1, the constant 1 and a
  first expression \<^verbatim>\<open>E\<close> over it at addresses 2 and 3, the constant 2 and a second
  expression \<^verbatim>\<open>E\<close> over it at addresses 4 and 5.
\<close>

definition blocked_heap :: heap where
  "blocked_heap =
    [\<lparr>d_cachedValue = NaN, variant = VariableNode True ''x''\<rparr>,
     \<lparr>d_cachedValue = NaN, variant = ExpressionNode (Some 0) ''F''\<rparr>,
     \<lparr>d_cachedValue = Num 1, variant = ConstantNode\<rparr>,
     \<lparr>d_cachedValue = NaN, variant = ExpressionNode (Some 2) ''E''\<rparr>,
     \<lparr>d_cachedValue = Num 2, variant = ConstantNode\<rparr>,
     \<lparr>d_cachedValue = NaN, variant = ExpressionNode (Some 4) ''E''\<rparr>]"

definition blocked_context :: EvaluationContext where
  "blocked_context =
     addExpression (addExpression empty_context ''F'' (Some 1)) ''E'' (Some 3)"

section \<open>Properties\<close>

subsection \<open>The rules of \<^verbatim>\<open>eval\<close> and \<^verbatim>\<open>needCalc\<close>, one per class\<close>

lemma eval_VariableNode:
  "a < length h \<Longrightarrow> variant (h ! a) = VariableNode d nm \<Longrightarrow>
   eval ord h (Some a) = (if isnan (d_cachedValue (h ! a)) then Some (Inl NotSet)
                      else Some (Inr (d_cachedValue (h ! a))))"
  by (subst eval.simps) (simp add: deref_def)

lemma eval_ConstantNode:
  "a < length h \<Longrightarrow> variant (h ! a) = ConstantNode \<Longrightarrow>
   eval ord h (Some a) = Some (Inr (d_cachedValue (h ! a)))"
  by (subst eval.simps) (simp add: deref_def)

lemma eval_ExpressionNode:
  "a < length h \<Longrightarrow> variant (h ! a) = ExpressionNode e nm \<Longrightarrow> eval ord h (Some a) = eval ord h e"
  by (subst eval.simps) (simp add: deref_def)

lemma eval_UnaryOperatorNode:
  "a < length h \<Longrightarrow> variant (h ! a) = UnaryOperatorNode q f \<Longrightarrow>
   eval ord h (Some a) =
     (case eval ord h q of None \<Rightarrow> None | Some (Inl e) \<Rightarrow> Some (Inl e)
      | Some (Inr x) \<Rightarrow> raise_or (f x))"
  by (subst eval.simps) (simp add: deref_def split: option.splits sum.splits)

lemma eval_BinaryOperatorNode_LeftFirst:
  "a < length h \<Longrightarrow> variant (h ! a) = BinaryOperatorNode l r f \<Longrightarrow>
   eval LeftFirst h (Some a) =
     (case eval LeftFirst h l of None \<Rightarrow> None | Some (Inl e) \<Rightarrow> Some (Inl e)
      | Some (Inr x) \<Rightarrow>
         (case eval LeftFirst h r of None \<Rightarrow> None | Some (Inl e) \<Rightarrow> Some (Inl e)
          | Some (Inr y) \<Rightarrow> raise_or (f x y)))"
  by (subst eval.simps) (simp add: deref_def split: option.splits sum.splits)

lemma eval_BinaryOperatorNode_RightFirst:
  "a < length h \<Longrightarrow> variant (h ! a) = BinaryOperatorNode l r f \<Longrightarrow>
   eval RightFirst h (Some a) =
     (case eval RightFirst h r of None \<Rightarrow> None | Some (Inl e) \<Rightarrow> Some (Inl e)
      | Some (Inr y) \<Rightarrow>
         (case eval RightFirst h l of None \<Rightarrow> None | Some (Inl e) \<Rightarrow> Some (Inl e)
          | Some (Inr x) \<Rightarrow> raise_or (f x y)))"
  by (subst eval.simps) (simp add: deref_def split: option.splits sum.splits)

text \<open>The binary rule for both orders at once: \<open>p1\<close> is the operand evaluated first.\<close>

lemma eval_BinaryOperatorNode:
  assumes "a < length h" "variant (h ! a) = BinaryOperatorNode l r f"
    and "p1 = (case ord of LeftFirst \<Rightarrow> l | RightFirst \<Rightarrow> r)"
    and "p2 = (case ord of LeftFirst \<Rightarrow> r | RightFirst \<Rightarrow> l)"
  shows "eval ord h (Some a) =
     (case eval ord h p1 of None \<Rightarrow> None | Some (Inl e) \<Rightarrow> Some (Inl e)
      | Some (Inr v1) \<Rightarrow>
         (case eval ord h p2 of None \<Rightarrow> None | Some (Inl e) \<Rightarrow> Some (Inl e)
          | Some (Inr v2) \<Rightarrow>
              raise_or (case ord of LeftFirst \<Rightarrow> f v1 v2 | RightFirst \<Rightarrow> f v2 v1)))"
  using assms
  by (cases ord)
     (simp_all add: eval_BinaryOperatorNode_LeftFirst eval_BinaryOperatorNode_RightFirst
        split: option.splits sum.splits)

lemma needCalc_VariableNode:
  "a < length h \<Longrightarrow> variant (h ! a) = VariableNode d nm \<Longrightarrow> needCalc h (Some a) = Some d"
  by (subst needCalc.simps) (simp add: deref_def)

lemma needCalc_ConstantNode:
  "a < length h \<Longrightarrow> variant (h ! a) = ConstantNode \<Longrightarrow> needCalc h (Some a) = Some False"
  by (subst needCalc.simps) (simp add: deref_def)

lemma needCalc_ExpressionNode:
  "a < length h \<Longrightarrow> variant (h ! a) = ExpressionNode e nm \<Longrightarrow>
   needCalc h (Some a) = needCalc h e"
  by (subst needCalc.simps) (simp add: deref_def)

lemma needCalc_UnaryOperatorNode:
  "a < length h \<Longrightarrow> variant (h ! a) = UnaryOperatorNode q f \<Longrightarrow>
   needCalc h (Some a) = needCalc h q"
  by (subst needCalc.simps) (simp add: deref_def)

lemma needCalc_BinaryOperatorNode:
  "a < length h \<Longrightarrow> variant (h ! a) = BinaryOperatorNode l r f \<Longrightarrow>
   needCalc h (Some a) =
     (case needCalc h l of None \<Rightarrow> None
      | Some b \<Rightarrow> if b then Some True else needCalc h r)"
  by (subst needCalc.simps) (simp add: deref_def split: option.splits)

lemma calc_ConstantNode:
  "a < length (heap s) \<Longrightarrow> variant (heap s ! a) = ConstantNode \<Longrightarrow>
   calc ord s (Some a) =
     Some (Inr (d_cachedValue (heap s ! a)),
           if isnan (d_cachedValue (heap s ! a)) then s
           else s\<lparr>cout := cout s @ [''Using cache'']\<rparr>)"
  by (simp add: calc_def needCalc_ConstantNode eval_ConstantNode list_update_same_conv)

lemma needCalc_dirty:
  "a < length h \<Longrightarrow> \<exists>nm. variant (h ! a) = VariableNode True nm \<Longrightarrow>
   needCalc h (Some a) = Some True"
  by (auto simp: needCalc_VariableNode)

subsection \<open>What \<^verbatim>\<open>calc\<close> leaves alone\<close>

lemma calc_variant:
  "calc ord s p = Some (r, s') \<Longrightarrow> map variant (heap s') = map variant (heap s)"
  by (auto simp: calc_def map_update list_eq_iff_nth_eq nth_list_update
      split: option.splits if_splits sum.splits bind_splits)

lemma calc_length:
  "calc ord s p = Some (r, s') \<Longrightarrow> length (heap s') = length (heap s)"
  by (drule calc_variant) (metis length_map)

lemma calc_variant_nth:
  "calc ord s p = Some (r, s') \<Longrightarrow> a < length (heap s) \<Longrightarrow>
   variant (heap s' ! a) = variant (heap s ! a)"
  by (frule calc_variant, drule calc_length) (metis nth_map)

subsection \<open>\<open>NotFound\<close> is not raised by a node; \<^verbatim>\<open>needCalc\<close> reads only the variants\<close>

lemma eval_never_NotFound:
  assumes "eval ord h p = Some r"
  shows "r \<noteq> Inl NotFound"
  apply (rule eval.raw_induct [OF _ assms])
  subgoal premises prems for ev ord h p r
    using prems(2) prems(1)
    by (auto simp: raise_or_def
        split: option.splits variant.splits if_splits sum.splits bind_splits arg_order.splits)
  done

lemma needCalc_variant_mono:
  assumes "needCalc h p = Some y"
  shows "\<forall>h'::heap. map variant h = map variant h' \<longrightarrow> needCalc h' p = Some y"
proof (rule needCalc.raw_induct [OF _ assms])
  fix nc h p y
  assume IH: "\<And>h p y. nc h p = Some y \<Longrightarrow>
                \<forall>h'::heap. map variant h = map variant h' \<longrightarrow> needCalc h' p = Some y"
    and body: "(case deref h p of None \<Rightarrow> None
     | Some n \<Rightarrow>
        (case variant n of
           ExpressionNode e nm \<Rightarrow> nc h e
         | ConstantNode \<Rightarrow> Some False
         | VariableNode d nm \<Rightarrow> Some d
         | UnaryOperatorNode q f \<Rightarrow> nc h q
         | BinaryOperatorNode l r f \<Rightarrow>
             nc h l \<bind> (\<lambda>b. if b then Some True else nc h r))) = Some y"
  show "\<forall>h'::heap. map variant h = map variant h' \<longrightarrow> needCalc h' p = Some y"
  proof (intro allI impI)
    fix h' :: heap assume eq: "map variant h = map variant h'"
    then have len: "length h' = length h" by (metis length_map)
    from eq have var: "variant (h' ! a) = variant (h ! a)" if "a < length h" for a
      using that by (metis length_map nth_map)
    show "needCalc h' p = Some y"
      using body IH [THEN spec, THEN mp, OF _ eq] len var
      by (subst needCalc.simps)
         (auto simp: deref_def split: option.splits variant.splits if_splits bind_splits)
  qed
qed

lemma needCalc_variant_cong:
  assumes "map variant h = map variant h'"
  shows "needCalc h p = needCalc h' p"
proof (cases "needCalc h p")
  case None
  show ?thesis
  proof (cases "needCalc h' p")
    case (Some y)
    from needCalc_variant_mono [OF this] assms None show ?thesis by simp
  qed (simp add: None)
next
  case (Some y)
  from needCalc_variant_mono [OF this] assms Some show ?thesis by simp
qed

subsection \<open>\<^verbatim>\<open>eval\<close> reads no dirty flag and no cache of an operator\<close>

lemma eval_view_eqD:
  assumes "eval_view n = eval_view n'"
  shows "variant n = ExpressionNode e nm \<Longrightarrow> variant n' = ExpressionNode e nm"
    and "variant n = ConstantNode \<Longrightarrow>
           variant n' = ConstantNode \<and> d_cachedValue n' = d_cachedValue n"
    and "variant n = VariableNode d nm \<Longrightarrow>
           (\<exists>d'. variant n' = VariableNode d' nm) \<and> d_cachedValue n' = d_cachedValue n"
    and "variant n = UnaryOperatorNode q f \<Longrightarrow> variant n' = UnaryOperatorNode q f"
    and "variant n = BinaryOperatorNode l r g \<Longrightarrow> variant n' = BinaryOperatorNode l r g"
  using assms
  by (cases n; cases n'; auto simp: eval_view_def split: variant.splits)+

lemma eval_view_mono:
  assumes "eval ord h p = Some y"
  shows "\<forall>h'::heap. map eval_view h = map eval_view h' \<longrightarrow> eval ord h' p = Some y"
  apply (rule eval.raw_induct [OF _ assms])
  subgoal premises prems for ev ord h p y
  proof (intro allI impI)
    fix h' :: heap assume eq: "map eval_view h = map eval_view h'"
    note body = prems(2)
    then have len: "length h' = length h" using eq by (metis length_map)
    from body obtain a where p: "p = Some a" and a: "a < length h"
      by (auto simp: deref_def split: option.splits if_splits)
    from eq a have view: "eval_view (h ! a) = eval_view (h' ! a)"
      by (metis length_map nth_map)
    note D = eval_view_eqD [OF view]
    note IH' = prems(1) [THEN spec, THEN mp, OF _ eq]
    have a': "a < length h'" using a len by simp
    show "eval ord h' p = Some y"
    proof (cases "variant (h ! a)")
      case (ExpressionNode e nm)
      with body p a IH' show ?thesis
        by (simp add: deref_def eval_ExpressionNode [OF a' D(1) [OF ExpressionNode]])
    next
      case ConstantNode
      with body p a D(2) show ?thesis
        by (simp add: deref_def eval_ConstantNode [OF a'])
    next
      case (VariableNode d nm)
      from D(3) [OF this] obtain d' where "variant (h' ! a) = VariableNode d' nm"
        "d_cachedValue (h' ! a) = d_cachedValue (h ! a)" by blast
      with body p a VariableNode show ?thesis
        by (auto simp: deref_def eval_VariableNode [OF a'] split: if_splits)
    next
      case (UnaryOperatorNode q f)
      with body p a IH' show ?thesis
        by (auto simp: deref_def eval_UnaryOperatorNode [OF a' D(4) [OF UnaryOperatorNode]]
            split: bind_splits sum.splits)
    next
      case (BinaryOperatorNode l r f)
      note var' = D(5) [OF BinaryOperatorNode]
      show ?thesis
      proof (cases ord)
        case LeftFirst
        with BinaryOperatorNode body p a IH' show ?thesis
          by (auto simp: deref_def eval_BinaryOperatorNode_LeftFirst [OF a' var']
              split: bind_splits sum.splits)
      next
        case RightFirst
        with BinaryOperatorNode body p a IH' show ?thesis
          by (auto simp: deref_def eval_BinaryOperatorNode_RightFirst [OF a' var']
              split: bind_splits sum.splits)
      qed
    qed
  qed
  done

lemma eval_view_cong:
  assumes "map eval_view h = map eval_view h'"
  shows "eval ord h p = eval ord h' p"
proof (cases "eval ord h p")
  case None
  show ?thesis
  proof (cases "eval ord h' p")
    case (Some y)
    from eval_view_mono [OF this] assms None show ?thesis by simp
  qed (simp add: None)
next
  case (Some y)
  from eval_view_mono [OF this] assms Some show ?thesis by simp
qed

subsection \<open>The maps and the list of the context\<close>

lemma map_index_fresh:
  "map_of m name = None \<Longrightarrow> map_index m name = (None, m @ [(name, None)])"
  unfolding map_index_def by (induction m) auto

lemma map_fst_update:
  "map_of m k \<noteq> None \<Longrightarrow> map fst (AList.update k v m) = map fst m"
  by (induction m) auto

lemma calc_all_append:
  "calc_all ord (xs @ ys) s =
    (case calc_all ord xs s of None \<Rightarrow> None
     | Some (Inl e, s') \<Rightarrow> Some (Inl e, s')
     | Some (Inr u, s') \<Rightarrow> calc_all ord ys s')"
  by (induction xs arbitrary: s) (auto split: option.splits sum.splits prod.splits)

subsection \<open>The two loops of the context\<close>

lemma calc_raises:
  "calc ord s p = Some (Inl e, s') \<Longrightarrow>
   e \<noteq> NotFound \<and> s' = s \<and> eval ord (heap s) p = Some (Inl e)"
  by (auto simp: calc_def split: option.splits if_splits sum.splits bind_splits
      dest: eval_never_NotFound)


lemma VariableNode_cache_clean:
  assumes "VariableNode_cache h p = Some h'"
  shows "length h' = length h"
    and "needCalc h' p = Some False"
    and "a < length h \<Longrightarrow> \<exists>nm. variant (h ! a) = VariableNode False nm \<Longrightarrow>
         \<exists>nm. variant (h' ! a) = VariableNode False nm"
  using assms
  by (auto simp: VariableNode_cache_def needCalc_VariableNode nth_list_update
      split: option.splits if_splits variant.splits)

lemma cache_all_length: "cache_all vm h = Some h2 \<Longrightarrow> length h2 = length h"
  by (induction vm arbitrary: h) (auto split: option.splits dest: VariableNode_cache_clean(1))

lemma cache_all_keeps_clean:
  "cache_all vm h = Some h2 \<Longrightarrow> a < length h \<Longrightarrow>
   \<exists>nm. variant (h ! a) = VariableNode False nm \<Longrightarrow>
   \<exists>nm. variant (h2 ! a) = VariableNode False nm"
proof (induction vm arbitrary: h)
  case Nil
  then show ?case by simp
next
  case (Cons kv vm)
  from Cons.prems(1) obtain h' where 1: "VariableNode_cache h (snd kv) = Some h'"
    and 2: "cache_all vm h' = Some h2"
    by (auto split: option.splits)
  from VariableNode_cache_clean(1,3) [OF 1] Cons.prems(2,3)
  have "a < length h'" "\<exists>nm. variant (h' ! a) = VariableNode False nm" by simp_all
  with Cons.IH [OF 2] show ?case by blast
qed

lemma cache_all_clean:
  "cache_all vm h = Some h2 \<Longrightarrow> kv \<in> set vm \<Longrightarrow> needCalc h2 (snd kv) = Some False"
proof (induction vm arbitrary: h)
  case Nil
  then show ?case by simp
next
  case (Cons kv' vm)
  from Cons.prems(1) obtain h' where 1: "VariableNode_cache h (snd kv') = Some h'"
    and 2: "cache_all vm h' = Some h2"
    by (auto split: option.splits)
  show ?case
  proof (cases "kv \<in> set vm")
    case True
    with Cons.IH [OF 2] show ?thesis by simp
  next
    case False
    with Cons.prems(2) have kv: "kv = kv'" by simp
    from 1 obtain a where a: "snd kv' = Some a" "a < length h'"
      "\<exists>nm. variant (h' ! a) = VariableNode False nm"
      by (auto simp: VariableNode_cache_def split: option.splits if_splits variant.splits)
    from cache_all_keeps_clean [OF 2 a(2,3)] cache_all_length [OF 2] a(1,2) kv
    show ?thesis by (auto simp: needCalc_VariableNode)
  qed
qed

subsection \<open>What \<^verbatim>\<open>calc\<close> does to the heap\<close>

lemma calc_fresh:
  "a < length (heap s) \<Longrightarrow> \<not> isnan (d_cachedValue (heap s ! a)) \<Longrightarrow>
   needCalc (heap s) (Some a) = Some False \<Longrightarrow>
   calc ord s (Some a) =
     Some (Inr (d_cachedValue (heap s ! a)), s\<lparr>cout := cout s @ [''Using cache'']\<rparr>)"
  by (simp add: calc_def)

lemma calc_stale:
  "a < length (heap s) \<Longrightarrow>
   isnan (d_cachedValue (heap s ! a)) \<or> needCalc (heap s) (Some a) = Some True \<Longrightarrow>
   calc ord s (Some a) =
     (case eval ord (heap s) (Some a) of
        None \<Rightarrow> None
      | Some (Inl e) \<Rightarrow> Some (Inl e, s)
      | Some (Inr v) \<Rightarrow>
          Some (Inr v, s\<lparr>heap := (heap s)[a := (heap s ! a)\<lparr>d_cachedValue := v\<rparr>]\<rparr>))"
  by (auto simp: calc_def split: option.splits sum.splits)

lemma calc_result:
  assumes "calc ord s p = Some (Inr v, s')"
  obtains a where "p = Some a" "a < length (heap s)"
    "heap s' = (heap s)[a := (heap s ! a)\<lparr>d_cachedValue := v\<rparr>]"
    "(\<not> isnan (d_cachedValue (heap s ! a)) \<and> v = d_cachedValue (heap s ! a) \<and>
      needCalc (heap s) p = Some False \<and> cout s' = cout s @ [''Using cache'']) \<or>
     ((isnan (d_cachedValue (heap s ! a)) \<or> needCalc (heap s) p = Some True) \<and>
      eval ord (heap s) p = Some (Inr v) \<and> cout s' = cout s)"
  using assms
  by (auto simp: calc_def list_update_same_conv
      split: option.splits if_splits sum.splits bind_splits)

lemma calc_other_nodes:
  "calc ord s (Some a) = Some (r, s') \<Longrightarrow> b \<noteq> a \<Longrightarrow> heap s' ! b = heap s ! b"
  by (auto simp: calc_def split: option.splits if_splits sum.splits bind_splits)

lemma calc_stores_result:
  "calc ord s (Some a) = Some (Inr v, s') \<Longrightarrow> d_cachedValue (heap s' ! a) = v"
  by (erule calc_result) simp

lemma eval_leaf:
  assumes "operands (variant (h ! a)) = []" "a < length h" "eval ord h (Some a) = Some (Inr v)"
  shows "v = d_cachedValue (h ! a)"
  using assms eval_ConstantNode [OF assms(2)] eval_VariableNode [OF assms(2)]
  by (cases "variant (h ! a)") (auto split: if_splits)

lemma update_cache_view:
  assumes "a < length h" "operands (variant (h ! a)) = [] \<longrightarrow> v = d_cachedValue (h ! a)"
  shows "map eval_view (h[a := (h ! a)\<lparr>d_cachedValue := v\<rparr>]) = map eval_view h"
proof -
  have "eval_view ((h ! a)\<lparr>d_cachedValue := v\<rparr>) = eval_view (h ! a)"
    using assms(2) by (cases "variant (h ! a)") (auto simp: eval_view_def)
  then show ?thesis
    using assms(1) by (simp add: map_update list_update_same_conv)
qed

lemma calc_eval_view:
  assumes "calc ord s p = Some (r, s')"
  shows "map eval_view (heap s') = map eval_view (heap s)"
proof (cases r)
  case (Inl e)
  with assms calc_raises show ?thesis by blast
next
  case (Inr v)
  with assms have c: "calc ord s p = Some (Inr v, s')" by simp
  then obtain a where a: "p = Some a" "a < length (heap s)"
    and upd: "heap s' = (heap s)[a := (heap s ! a)\<lparr>d_cachedValue := v\<rparr>]"
    and how: "(\<not> isnan (d_cachedValue (heap s ! a)) \<and> v = d_cachedValue (heap s ! a) \<and>
      needCalc (heap s) p = Some False \<and> cout s' = cout s @ [''Using cache'']) \<or>
     ((isnan (d_cachedValue (heap s ! a)) \<or> needCalc (heap s) p = Some True) \<and>
      eval ord (heap s) p = Some (Inr v) \<and> cout s' = cout s)"
    by (rule calc_result)
  have "operands (variant (heap s ! a)) = [] \<longrightarrow> v = d_cachedValue (heap s ! a)"
    using how a eval_leaf by blast
  with a(2) upd show ?thesis by (simp add: update_cache_view)
qed

lemma calc_eval: "calc ord s p = Some (r, s') \<Longrightarrow> eval ord (heap s') q = eval ord (heap s) q"
  by (rule eval_view_cong) (rule calc_eval_view)

lemma calc_needCalc: "calc ord s p = Some (r, s') \<Longrightarrow> needCalc (heap s') q = needCalc (heap s) q"
  by (rule needCalc_variant_cong) (rule calc_variant)

subsection \<open>Graphs built by the constructors: every call returns\<close>

lemma wf_operand:
  "wf_heap h \<Longrightarrow> a < length h \<Longrightarrow> p \<in> set (operands (variant (h ! a))) \<Longrightarrow>
   \<exists>b < a. p = Some b"
  by (simp add: wf_heap_def)

lemma reach_length: "reach h a b \<Longrightarrow> a < length h \<and> b < length h"
  by (induction rule: reach.induct) auto

lemma reach_leaf:
  "reach h a b \<Longrightarrow> operands (variant (h ! a)) = [] \<Longrightarrow> b = a"
  by (cases rule: reach.cases) auto

lemma eval_total:
  "wf_heap h \<Longrightarrow> a < length h \<Longrightarrow> \<exists>r. eval ord h (Some a) = Some r"
proof (induction a rule: less_induct)
  case (less a)
  note IH = less.IH [OF _ less.prems(1)]
  note ops = wf_operand [OF less.prems]
  show ?case
  proof (cases "variant (h ! a)")
    case (ExpressionNode e nm)
    with ops [of e] obtain b where "b < a" "e = Some b" by auto
    with IH [of b] less.prems(2) eval_ExpressionNode [OF less.prems(2) ExpressionNode]
    show ?thesis by simp
  next
    case ConstantNode
    then show ?thesis by (simp add: eval_ConstantNode [OF less.prems(2)])
  next
    case (VariableNode d nm)
    then show ?thesis by (simp add: eval_VariableNode [OF less.prems(2)])
  next
    case (UnaryOperatorNode q f)
    with ops [of q] obtain b where "b < a" "q = Some b" by auto
    with IH [of b] less.prems(2) eval_UnaryOperatorNode [OF less.prems(2) UnaryOperatorNode]
    show ?thesis by (auto simp: raise_or_def split: sum.splits)
  next
    case (BinaryOperatorNode l r f)
    with ops [of l] ops [of r] obtain bl br where "bl < a" "l = Some bl" "br < a" "r = Some br"
      by auto
    with IH [of bl] IH [of br] less.prems(2)
      eval_BinaryOperatorNode_LeftFirst [OF less.prems(2) BinaryOperatorNode]
      eval_BinaryOperatorNode_RightFirst [OF less.prems(2) BinaryOperatorNode]
    show ?thesis by (cases ord) (auto simp: raise_or_def split: sum.splits)
  qed
qed

text \<open>
  With functions that never throw below a node, \<open>NotSet\<close> is the only exception of its
  \<^verbatim>\<open>eval()\<close>.
\<close>

lemma eval_no_throw:
  "wf_heap h \<Longrightarrow> a < length h \<Longrightarrow> \<forall>c. reach h a c \<longrightarrow> no_throw (variant (h ! c)) \<Longrightarrow>
   eval ord h (Some a) = Some (Inl e) \<Longrightarrow> e = NotSet"
proof (induction a arbitrary: e rule: less_induct)
  case (less a)
  note ops = wf_operand [OF less.prems(1,2)]
  note fails = less.prems(4)
  have sub: "e' = NotSet" if "Some b \<in> set (operands (variant (h ! a)))"
    "eval ord h (Some b) = Some (Inl e')" for b e'
  proof -
    from ops [OF that(1)] have b: "b < a" by simp
    with less.prems(2) have len: "b < length h" by simp
    have "\<forall>c. reach h b c \<longrightarrow> no_throw (variant (h ! c))"
      using less.prems(3) reach.below [OF less.prems(2) that(1)] by blast
    from less.IH [OF b less.prems(1) len this that(2)] show ?thesis .
  qed
  have here: "no_throw (variant (h ! a))"
    using less.prems(3) reach.here [OF less.prems(2)] by blast
  show ?case
  proof (cases "variant (h ! a)")
    case (ExpressionNode q nm)
    with ops [of q] obtain b where "q = Some b" by auto
    with sub [of b e] ExpressionNode fails
      eval_ExpressionNode [OF less.prems(2) ExpressionNode]
    show ?thesis by simp
  next
    case ConstantNode
    with fails show ?thesis by (simp add: eval_ConstantNode [OF less.prems(2)])
  next
    case (VariableNode d nm)
    with fails show ?thesis
      by (simp add: eval_VariableNode [OF less.prems(2)] split: if_splits)
  next
    case (UnaryOperatorNode q f)
    with ops [of q] obtain b where b: "q = Some b" by auto
    from here UnaryOperatorNode have "\<And>x. \<exists>y. f x = Inr y" by simp
    then have "\<And>x. raise_or (f x) \<noteq> Some (Inl e)"
      by (metis raise_or_def sum.case(2) option.inject sum.distinct(1))
    with sub [of b e] b UnaryOperatorNode fails
      eval_UnaryOperatorNode [OF less.prems(2) UnaryOperatorNode]
    show ?thesis by (auto split: option.splits sum.splits)
  next
    case (BinaryOperatorNode l r f)
    with ops [of l] ops [of r] obtain bl br where b: "l = Some bl" "r = Some br" by auto
    from here BinaryOperatorNode have "\<And>x y. \<exists>z. f x y = Inr z" by simp
    then have nothrow: "\<And>x y. raise_or (f x y) \<noteq> Some (Inl e)"
      by (metis raise_or_def sum.case(2) option.inject sum.distinct(1))
    show ?thesis
    proof (cases ord)
      case LeftFirst
      with sub [of bl e] sub [of br e] b BinaryOperatorNode fails nothrow
        eval_BinaryOperatorNode_LeftFirst [OF less.prems(2) BinaryOperatorNode]
      show ?thesis by (auto split: option.splits sum.splits)
    next
      case RightFirst
      with sub [of bl e] sub [of br e] b BinaryOperatorNode fails nothrow
        eval_BinaryOperatorNode_RightFirst [OF less.prems(2) BinaryOperatorNode]
      show ?thesis by (auto split: option.splits sum.splits)
    qed
  qed
qed

lemma needCalc_total:
  "wf_heap h \<Longrightarrow> a < length h \<Longrightarrow> \<exists>d. needCalc h (Some a) = Some d"
proof (induction a rule: less_induct)
  case (less a)
  note IH = less.IH [OF _ less.prems(1)]
  note ops = wf_operand [OF less.prems]
  show ?case
  proof (cases "variant (h ! a)")
    case (ExpressionNode e nm)
    with ops [of e] obtain b where "b < a" "e = Some b" by auto
    with IH [of b] less.prems(2) needCalc_ExpressionNode [OF less.prems(2) ExpressionNode]
    show ?thesis by simp
  next
    case ConstantNode
    from needCalc_ConstantNode [OF less.prems(2) this] show ?thesis by blast
  next
    case (VariableNode d nm)
    from needCalc_VariableNode [OF less.prems(2) this] show ?thesis by blast
  next
    case (UnaryOperatorNode q f)
    with ops [of q] obtain b where "b < a" "q = Some b" by auto
    with IH [of b] less.prems(2) needCalc_UnaryOperatorNode [OF less.prems(2) UnaryOperatorNode]
    show ?thesis by auto
  next
    case (BinaryOperatorNode l r f)
    with ops [of l] ops [of r] obtain bl br where "bl < a" "l = Some bl" "br < a" "r = Some br"
      by auto
    with IH [of bl] IH [of br] less.prems(2)
      needCalc_BinaryOperatorNode [OF less.prems(2) BinaryOperatorNode]
    show ?thesis by auto
  qed
qed

lemma calc_total:
  assumes "wf_heap (heap s)" "a < length (heap s)"
  shows "\<exists>r s'. calc ord s (Some a) = Some (r, s')"
proof -
  from eval_total [OF assms] obtain r where "eval ord (heap s) (Some a) = Some r" by blast
  moreover from needCalc_total [OF assms] obtain d where "needCalc (heap s) (Some a) = Some d"
    by blast
  ultimately show ?thesis
    using assms(2) by (cases r) (auto simp: calc_def)
qed

text \<open>Above a variable whose cached value is NaN every \<^verbatim>\<open>eval()\<close> raises.\<close>

lemma eval_fails_below:
  assumes "wf_heap h"
  shows "reach h a b \<Longrightarrow> variant (h ! b) = VariableNode d nm \<Longrightarrow>
         isnan (d_cachedValue (h ! b)) \<Longrightarrow> \<exists>e. eval ord h (Some a) = Some (Inl e)"
proof (induction rule: reach.induct)
  case (here a)
  then show ?case by (simp add: eval_VariableNode)
next
  case (below a b c)
  from below obtain e0 where IH: "eval ord h (Some b) = Some (Inl e0)" by auto
  note ops = wf_operand [OF assms below.hyps(1)]
  show ?case
  proof (cases "variant (h ! a)")
    case (ExpressionNode e nm)
    with below.hyps(2) IH eval_ExpressionNode [OF below.hyps(1) ExpressionNode]
    show ?thesis by simp
  next
    case ConstantNode
    with below.hyps(2) show ?thesis by simp
  next
    case (VariableNode d nm)
    with below.hyps(2) show ?thesis by simp
  next
    case (UnaryOperatorNode q f)
    with below.hyps(2) IH eval_UnaryOperatorNode [OF below.hyps(1) UnaryOperatorNode]
    show ?thesis by simp
  next
    case (BinaryOperatorNode l r f)
    with ops [of l] ops [of r] obtain bl br where bl: "bl < a" "l = Some bl"
      and br: "br < a" "r = Some br" by auto
    with below.hyps(1) have "bl < length h" "br < length h" by simp_all
    from eval_total [OF assms this(1), of ord] eval_total [OF assms this(2), of ord]
    obtain rl rr where tot: "eval ord h (Some bl) = Some rl" "eval ord h (Some br) = Some rr"
      by blast
    from below.hyps(2) BinaryOperatorNode bl(2) br(2) have "b = bl \<or> b = br" by auto
    with tot IH bl(2) br(2)
      eval_BinaryOperatorNode_LeftFirst [OF below.hyps(1) BinaryOperatorNode]
      eval_BinaryOperatorNode_RightFirst [OF below.hyps(1) BinaryOperatorNode]
    show ?thesis
      by (cases ord; cases rl; cases rr) auto
  qed
qed

lemma needCalc_clean_below:
  "wf_heap h \<Longrightarrow> a < length h \<Longrightarrow>
   \<forall>b nm. reach h a b \<longrightarrow> variant (h ! b) \<noteq> VariableNode True nm \<Longrightarrow>
   needCalc h (Some a) = Some False"
proof (induction a rule: less_induct)
  case (less a)
  note ops = wf_operand [OF less.prems(1,2)]
  have sub: "needCalc h (Some b) = Some False"
    if "Some b \<in> set (operands (variant (h ! a)))" for b
  proof -
    from ops [OF that] have b: "b < a" by simp
    with less.prems(2) have len: "b < length h" by simp
    have "\<forall>c nm. reach h b c \<longrightarrow> variant (h ! c) \<noteq> VariableNode True nm"
      using less.prems(3) reach.below [OF less.prems(2) that] by blast
    from less.IH [OF b less.prems(1) len this] show ?thesis .
  qed
  show ?case
  proof (cases "variant (h ! a)")
    case (ExpressionNode e nm)
    with ops [of e] obtain b where "e = Some b" by auto
    with sub [of b] ExpressionNode needCalc_ExpressionNode [OF less.prems(2) ExpressionNode]
    show ?thesis by simp
  next
    case ConstantNode
    then show ?thesis by (simp add: needCalc_ConstantNode [OF less.prems(2)])
  next
    case (VariableNode d nm)
    with less.prems(3) reach.here [OF less.prems(2)] have "\<not> d" by (cases d) auto
    with VariableNode show ?thesis by (simp add: needCalc_VariableNode [OF less.prems(2)])
  next
    case (UnaryOperatorNode q f)
    with ops [of q] obtain b where "q = Some b" by auto
    with sub [of b] UnaryOperatorNode
      needCalc_UnaryOperatorNode [OF less.prems(2) UnaryOperatorNode]
    show ?thesis by simp
  next
    case (BinaryOperatorNode l r f)
    with ops [of l] ops [of r] obtain bl br where "l = Some bl" "r = Some br" by auto
    with sub [of bl] sub [of br] BinaryOperatorNode
      needCalc_BinaryOperatorNode [OF less.prems(2) BinaryOperatorNode]
    show ?thesis by simp
  qed
qed

subsection \<open>The shape of the graph is kept; the invariant of a variable never set\<close>

lemma shapeD:
  assumes "map (\<lambda>n. operands (variant n)) h' = map (\<lambda>n. operands (variant n)) h"
  shows "length h' = length h"
    and "a < length h \<Longrightarrow> operands (variant (h' ! a)) = operands (variant (h ! a))"
proof -
  show len: "length h' = length h" using assms by (metis length_map)
  show "operands (variant (h' ! a)) = operands (variant (h ! a))" if "a < length h"
    using assms that len by (metis (mono_tags, lifting) nth_map)
qed

lemma wf_heap_shape:
  assumes "map (\<lambda>n. operands (variant n)) h' = map (\<lambda>n. operands (variant n)) h" "wf_heap h"
  shows "wf_heap h'"
  using assms(2) shapeD [OF assms(1)] by (simp add: wf_heap_def)

lemma reach_shape:
  assumes "map (\<lambda>n. operands (variant n)) h' = map (\<lambda>n. operands (variant n)) h"
  shows "reach h a b \<Longrightarrow> reach h' a b"
proof (induction rule: reach.induct)
  case (here a)
  then show ?case using shapeD(1) [OF assms] by (simp add: reach.here)
next
  case (below a b c)
  from below.hyps(1) shapeD(1) [OF assms] have a: "a < length h'" by simp
  from below.hyps(2) shapeD(2) [OF assms below.hyps(1)]
  have "Some b \<in> set (operands (variant (h' ! a)))" by simp
  from reach.below [OF a this below.IH] show ?case .
qed

lemma variant_shape:
  assumes "map variant h' = map variant h"
  shows "map (\<lambda>n. operands (variant n)) h' = map (\<lambda>n. operands (variant n)) h"
proof -
  from assms have "map operands (map variant h') = map operands (map variant h)" by simp
  then show ?thesis by (simp add: comp_def)
qed

lemma update_same_operands:
  "q < length h \<Longrightarrow> operands (variant n) = operands (variant (h ! q)) \<Longrightarrow>
   map (\<lambda>n. operands (variant n)) (h[q := n]) = map (\<lambda>n. operands (variant n)) h"
  by (simp add: map_update list_update_same_conv)

lemma VariableNode_set_shape:
  "VariableNode_set h p v = Some h' \<Longrightarrow>
   map (\<lambda>n. operands (variant n)) h' = map (\<lambda>n. operands (variant n)) h"
  by (auto simp: VariableNode_set_def update_same_operands
      split: option.splits if_splits variant.splits)

lemma VariableNode_cache_shape:
  "VariableNode_cache h p = Some h' \<Longrightarrow>
   map (\<lambda>n. operands (variant n)) h' = map (\<lambda>n. operands (variant n)) h"
  by (auto simp: VariableNode_cache_def update_same_operands
      split: option.splits if_splits variant.splits)

lemma wf_heap_alloc:
  assumes "wf_heap h" "\<forall>p \<in> set (operands (variant n)). \<exists>q < length h. p = Some q"
  shows "wf_heap (h @ [n])"
  using assms by (auto simp: wf_heap_def nth_append less_Suc_eq)

lemma reach_alloc_old:
  assumes "wf_heap h"
  shows "reach (h @ [n]) a c \<Longrightarrow> a < length h \<Longrightarrow> reach h a c"
proof (induction rule: reach.induct)
  case (here a)
  then show ?case by (simp add: reach.here)
next
  case (below a b c)
  from below.hyps(2) below.prems have op: "Some b \<in> set (operands (variant (h ! a)))"
    by (simp add: nth_append)
  from wf_operand [OF assms below.prems op] below.prems have "b < length h" by auto
  with below.IH op below.prems show ?case by (auto intro: reach.below)
qed

lemma unset_above_alloc:
  assumes wf: "wf_heap h" and inv: "unset_above b h"
    and n: "isnan (d_cachedValue n) \<or> variant n = ConstantNode"
  shows "unset_above b (h @ [n])"
  unfolding unset_above_def
proof (intro allI impI)
  fix d nm a
  assume var: "variant ((h @ [n]) ! b) = VariableNode d nm" and r: "reach (h @ [n]) a b"
  from reach_length [OF r] have a: "a \<le> length h" and b: "b \<le> length h" by simp_all
  show "isnan (d_cachedValue ((h @ [n]) ! a))"
  proof (cases "a < length h")
    case True
    from reach_alloc_old [OF wf r True] have r': "reach h a b" .
    from reach_length [OF r'] have "b < length h" by simp
    with var have "variant (h ! b) = VariableNode d nm" by (simp add: nth_append)
    with inv r' True show ?thesis by (auto simp: unset_above_def nth_append)
  next
    case False
    with a have a': "a = length h" by simp
    show ?thesis
    proof (cases "isnan (d_cachedValue n)")
      case True
      with a' show ?thesis by simp
    next
      case False
      with n have "variant n = ConstantNode" by simp
      with a' have "operands (variant ((h @ [n]) ! a)) = []" by simp
      from reach_leaf [OF r this] a' var \<open>variant n = ConstantNode\<close> show ?thesis by simp
    qed
  qed
qed

lemma never_set_inv:
  "never_set b s \<Longrightarrow> wf_heap (heap s) \<and> unset_above b (heap s)"
proof (induction rule: never_set.induct)
  case start
  show ?case by (simp add: wf_heap_def unset_above_def) (auto dest: reach_length)
next
  case (mk_constant s v)
  then show ?case
    by (simp add: make_ConstantNode_def alloc_def wf_heap_alloc unset_above_alloc)
next
  case (mk_variable s nm)
  then show ?case
    by (simp add: make_VariableNode_def alloc_def wf_heap_alloc unset_above_alloc)
next
  case (mk_unary s q f)
  then show ?case
    by (simp add: make_UnaryOperatorNode_def alloc_def wf_heap_alloc unset_above_alloc)
next
  case (mk_binary s l r g)
  then show ?case
    by (simp add: make_BinaryOperatorNode_def alloc_def wf_heap_alloc unset_above_alloc)
next
  case (mk_expression s e nm)
  then show ?case
    by (simp add: make_ExpressionNode_def alloc_def wf_heap_alloc unset_above_alloc)
next
  case (set_other s p v h')
  note shape = VariableNode_set_shape [OF set_other.hyps(3)]
  from set_other.hyps(3) obtain q d0 nm0 where q: "p = Some q" "q < length (heap s)"
    "variant (heap s ! q) = VariableNode d0 nm0"
    and h': "h' = (heap s)[q := \<lparr>d_cachedValue = v, variant = VariableNode True nm0\<rparr>]"
    by (auto simp: VariableNode_set_def split: option.splits if_splits variant.splits)
  from set_other.hyps(2) q(1) have qb: "q \<noteq> b" by simp
  have "unset_above b h'"
    unfolding unset_above_def
  proof (intro allI impI)
    fix d nm a
    assume var: "variant (h' ! b) = VariableNode d nm" and r: "reach h' a b"
    from reach_shape [OF shape [symmetric] r] have r': "reach (heap s) a b" .
    from var qb h' have var': "variant (heap s ! b) = VariableNode d nm" by simp
    have "a \<noteq> q"
    proof
      assume "a = q"
      with r' q(3) reach_leaf [of "heap s" q b] qb show False by simp
    qed
    with set_other.IH var' r' h' show "isnan (d_cachedValue (h' ! a))"
      by (auto simp: unset_above_def)
  qed
  with set_other.IH wf_heap_shape [OF shape] show ?case by simp
next
  case (freeze s p h')
  note shape = VariableNode_cache_shape [OF freeze.hyps(2)]
  from freeze.hyps(2) obtain q d0 nm0 where q: "p = Some q" "q < length (heap s)"
    "variant (heap s ! q) = VariableNode d0 nm0"
    and h': "h' = (heap s)[q := (heap s ! q)\<lparr>variant := VariableNode False nm0\<rparr>]"
    by (auto simp: VariableNode_cache_def split: option.splits if_splits variant.splits)
  have "unset_above b h'"
    unfolding unset_above_def
  proof (intro allI impI)
    fix d nm a
    assume var: "variant (h' ! b) = VariableNode d nm" and r: "reach h' a b"
    from reach_shape [OF shape [symmetric] r] have r': "reach (heap s) a b" .
    from var h' q have "\<exists>d'. variant (heap s ! b) = VariableNode d' nm"
      by (cases "b = q") auto
    with freeze.IH r' have "isnan (d_cachedValue (heap s ! a))"
      by (auto simp: unset_above_def)
    with h' q(2) show "isnan (d_cachedValue (h' ! a))"
      by (cases "a = q") auto
  qed
  with freeze.IH wf_heap_shape [OF shape] show ?case by simp
next
  case (evaluate s ord p r' s')
  note shape = variant_shape [OF calc_variant [OF evaluate.hyps(2)]]
  from evaluate.IH have wf: "wf_heap (heap s)" and inv: "unset_above b (heap s)" by simp_all
  have "unset_above b (heap s')"
    unfolding unset_above_def
  proof (intro allI impI)
    fix d nm a
    assume var: "variant (heap s' ! b) = VariableNode d nm" and r: "reach (heap s') a b"
    from reach_shape [OF shape [symmetric] r] have r': "reach (heap s) a b" .
    from reach_length [OF r'] have len: "a < length (heap s)" "b < length (heap s)" by simp_all
    from var calc_variant_nth [OF evaluate.hyps(2) len(2)]
    have var': "variant (heap s ! b) = VariableNode d nm" by simp
    from inv var' r' have nan_a: "isnan (d_cachedValue (heap s ! a))"
      by (auto simp: unset_above_def)
    from inv var' reach.here [OF len(2)] have nan_b: "isnan (d_cachedValue (heap s ! b))"
      by (auto simp: unset_above_def)
    show "isnan (d_cachedValue (heap s' ! a))"
    proof (cases r')
      case (Inl e)
      with evaluate.hyps(2) calc_raises have "s' = s" by blast
      with nan_a show ?thesis by simp
    next
      case (Inr v)
      with evaluate.hyps(2) have c: "calc ord s p = Some (Inr v, s')" by simp
      then obtain a' where a': "p = Some a'" "a' < length (heap s)"
        and upd: "heap s' = (heap s)[a' := (heap s ! a')\<lparr>d_cachedValue := v\<rparr>]"
        and how: "(\<not> isnan (d_cachedValue (heap s ! a')) \<and> v = d_cachedValue (heap s ! a') \<and>
           needCalc (heap s) p = Some False \<and> cout s' = cout s @ [''Using cache'']) \<or>
          ((isnan (d_cachedValue (heap s ! a')) \<or> needCalc (heap s) p = Some True) \<and>
           eval ord (heap s) p = Some (Inr v) \<and> cout s' = cout s)"
        by (rule calc_result)
      show ?thesis
      proof (cases "a = a'")
        case True
        from eval_fails_below [OF wf r' var' nan_b, of ord] how nan_a True a'(1)
        show ?thesis by auto
      next
        case False
        with upd nan_a show ?thesis by simp
      qed
    qed
  qed
  with wf wf_heap_shape [OF shape] show ?case by simp
qed

lemma never_set_calc_all:
  "calc_all ord ps s = Some (r, s') \<Longrightarrow> never_set b s \<Longrightarrow> never_set b s'"
proof (induction ps arbitrary: s)
  case Nil
  then show ?case by simp
next
  case (Cons p ps)
  from Cons.prems(1) obtain r1 s1 where c: "calc ord s p = Some (r1, s1)"
    by (auto split: option.splits)
  from never_set.evaluate [OF Cons.prems(2) c] have n1: "never_set b s1" .
  show ?case
  proof (cases r1)
    case (Inl e)
    with Cons.prems(1) c n1 show ?thesis by simp
  next
    case (Inr v)
    with Cons.prems(1) c have "calc_all ord ps s1 = Some (r, s')" by simp
    from Cons.IH [OF this n1] show ?thesis .
  qed
qed

lemma never_set_cache_all:
  "cache_all vm (heap s) = Some h' \<Longrightarrow> never_set b s \<Longrightarrow> never_set b (s\<lparr>heap := h'\<rparr>)"
proof (induction vm arbitrary: s)
  case Nil
  then show ?case by (cases s) auto
next
  case (Cons kv vm)
  from Cons.prems(1) obtain h1 where 1: "VariableNode_cache (heap s) (snd kv) = Some h1"
    and 2: "cache_all vm h1 = Some h'"
    by (auto split: option.splits)
  from never_set.freeze [OF Cons.prems(2) 1] have "never_set b (s\<lparr>heap := h1\<rparr>)" .
  from Cons.IH [of "s\<lparr>heap := h1\<rparr>"] 2 this show ?case by simp
qed

lemma never_set_recalculate:
  assumes "never_set b s" "EvaluationContext_calc ord c s name = Some (r, s')"
  shows "never_set b s'"
proof -
  from assms(2) obtain r1 s1 where 1: "calc_all ord (d_expressions c) s = Some (r1, s1)"
    by (auto simp: EvaluationContext_calc_def split: option.splits)
  from never_set_calc_all [OF 1 assms(1)] have n1: "never_set b s1" .
  show ?thesis
  proof (cases r1)
    case (Inl e)
    with assms(2) 1 n1 show ?thesis by (simp add: EvaluationContext_calc_def)
  next
    case (Inr u)
    with assms(2) 1 obtain h2 where 2: "cache_all (d_variableMap c) (heap s1) = Some h2"
      by (auto simp: EvaluationContext_calc_def split: option.splits)
    from never_set_cache_all [OF 2 n1] have n2: "never_set b (s1\<lparr>heap := h2\<rparr>)" .
    show ?thesis
    proof (cases "map_of (d_expressionMap c) name")
      case None
      with assms(2) 1 2 Inr n2 show ?thesis by (simp add: EvaluationContext_calc_def)
    next
      case (Some p)
      with assms(2) 1 2 Inr have "calc ord (s1\<lparr>heap := h2\<rparr>) p = Some (r, s')"
        by (simp add: EvaluationContext_calc_def)
      from never_set.evaluate [OF n2 this] show ?thesis .
    qed
  qed
qed

subsection \<open>Above a variable that is never set every evaluation fails\<close>

lemma calc_fails_above:
  assumes "never_set b s" "variant (heap s ! b) = VariableNode d nm" "reach (heap s) a b"
  shows "\<exists>e. eval ord (heap s) (Some a) = Some (Inl e) \<and> calc ord s (Some a) = Some (Inl e, s) \<and>
             e \<noteq> NotFound \<and>
             ((\<forall>c. reach (heap s) a c \<longrightarrow> no_throw (variant (heap s ! c))) \<longrightarrow> e = NotSet)"
proof -
  from never_set_inv [OF assms(1)] have wf: "wf_heap (heap s)"
    and inv: "unset_above b (heap s)" by simp_all
  from reach_length [OF assms(3)] have len: "a < length (heap s)" "b < length (heap s)"
    by simp_all
  from inv assms(2) reach.here [OF len(2)] have "isnan (d_cachedValue (heap s ! b))"
    by (auto simp: unset_above_def)
  from eval_fails_below [OF wf assms(3,2) this]
  obtain e where e: "eval ord (heap s) (Some a) = Some (Inl e)" by blast
  from inv assms(2,3) have "isnan (d_cachedValue (heap s ! a))"
    by (auto simp: unset_above_def)
  with e len(1) have "calc ord s (Some a) = Some (Inl e, s)"
    by (simp add: calc_def)
  moreover from eval_never_NotFound [OF e] have "e \<noteq> NotFound" by blast
  moreover have "e = NotSet" if "\<forall>c. reach (heap s) a c \<longrightarrow> no_throw (variant (heap s ! c))"
    by (rule eval_no_throw [OF wf len(1) that e])
  ultimately show ?thesis using e by blast
qed

lemma calc_all_fails_above:
  "never_set b s \<Longrightarrow> variant (heap s ! b) = VariableNode d nm \<Longrightarrow> reach (heap s) a b \<Longrightarrow>
   Some a \<in> set ps \<Longrightarrow> \<forall>p \<in> set ps. \<exists>a' < length (heap s). p = Some a' \<Longrightarrow>
   \<exists>e s'. calc_all ord ps s = Some (Inl e, s') \<and> e \<noteq> NotFound"
proof (induction ps arbitrary: s d)
  case Nil
  then show ?case by simp
next
  case (Cons p ps)
  from Cons.prems(5) obtain a' where a': "p = Some a'" "a' < length (heap s)" by auto
  from never_set_inv [OF Cons.prems(1)] have wf: "wf_heap (heap s)" by simp
  from calc_total [OF wf a'(2)] a'(1) obtain r1 s1 where c: "calc ord s p = Some (r1, s1)"
    by blast
  show ?case
  proof (cases r1)
    case (Inl e)
    with c calc_raises [of ord s p e s1] show ?thesis by simp
  next
    case (Inr v)
    have "p \<noteq> Some a"
      using calc_fails_above [OF Cons.prems(1,2,3), of ord] c Inr by auto
    with Cons.prems(4) have in_ps: "Some a \<in> set ps" by simp
    note shape = variant_shape [OF calc_variant [OF c]]
    from reach_length [OF Cons.prems(3)] have "b < length (heap s)" by simp
    from calc_variant_nth [OF c this] Cons.prems(2)
    have var: "variant (heap s1 ! b) = VariableNode d nm" by simp
    from reach_shape [OF shape Cons.prems(3)] have r: "reach (heap s1) a b" .
    from Cons.prems(5) calc_length [OF c]
    have valid: "\<forall>p \<in> set ps. \<exists>a' < length (heap s1). p = Some a'" by simp
    from Cons.IH [OF never_set.evaluate [OF Cons.prems(1) c] var r in_ps valid] c Inr
    show ?thesis by simp
  qed
qed

lemma never_set_unset_heap: "never_set 0 \<lparr>heap = unset_heap, cout = []\<rparr>"
proof -
  let ?s0 = "\<lparr>heap = [], cout = []\<rparr>"
  have 0: "never_set 0 ?s0" by (rule never_set.start)
  from never_set.mk_variable [OF 0, of "''x''"]
  have 1: "never_set 0 \<lparr>heap = take 1 unset_heap, cout = []\<rparr>"
    by (simp add: make_VariableNode_def alloc_def unset_heap_def)
  from never_set.mk_constant [OF 1, of "Num 2"]
  have 2: "never_set 0 \<lparr>heap = take 2 unset_heap, cout = []\<rparr>"
    by (simp add: make_ConstantNode_def alloc_def unset_heap_def)
  from never_set.mk_binary [OF 2, of 1 0 add]
  have 3: "never_set 0 \<lparr>heap = take 3 unset_heap, cout = []\<rparr>"
    by (simp add: make_BinaryOperatorNode_def alloc_def unset_heap_def)
  from never_set.mk_unary [OF 3, of 2 neg]
  have 4: "never_set 0 \<lparr>heap = take 4 unset_heap, cout = []\<rparr>"
    by (simp add: make_UnaryOperatorNode_def alloc_def unset_heap_def)
  from never_set.mk_expression [OF 4, of 3 "''E''"]
  show ?thesis
    by (simp add: make_ExpressionNode_def alloc_def unset_heap_def)
qed

lemma reach_unset_heap: "reach unset_heap 4 0"
proof -
  have "reach unset_heap 0 0" by (rule reach.here) (simp add: unset_heap_def)
  then have "reach unset_heap 2 0"
    by (rule reach.below [rotated 2]) (simp_all add: unset_heap_def)
  then have "reach unset_heap 3 0"
    by (rule reach.below [rotated 2]) (simp_all add: unset_heap_def)
  then show ?thesis
    by (rule reach.below [rotated 2]) (simp_all add: unset_heap_def)
qed

lemma never_set_throw_heap: "never_set 0 \<lparr>heap = throw_heap, cout = []\<rparr>"
proof -
  let ?s0 = "\<lparr>heap = [], cout = []\<rparr>"
  have 0: "never_set 0 ?s0" by (rule never_set.start)
  from never_set.mk_variable [OF 0, of "''x''"]
  have 1: "never_set 0 \<lparr>heap = take 1 throw_heap, cout = []\<rparr>"
    by (simp add: make_VariableNode_def alloc_def throw_heap_def)
  from never_set.mk_constant [OF 1, of "Num 0"]
  have 2: "never_set 0 \<lparr>heap = take 2 throw_heap, cout = []\<rparr>"
    by (simp add: make_ConstantNode_def alloc_def throw_heap_def)
  from never_set.mk_unary [OF 2, of 1 recip]
  have 3: "never_set 0 \<lparr>heap = take 3 throw_heap, cout = []\<rparr>"
    by (simp add: make_UnaryOperatorNode_def alloc_def throw_heap_def)
  from never_set.mk_binary [OF 3, of 2 0 add]
  have 4: "never_set 0 \<lparr>heap = take 4 throw_heap, cout = []\<rparr>"
    by (simp add: make_BinaryOperatorNode_def alloc_def throw_heap_def)
  from never_set.mk_binary [OF 4, of 0 2 add]
  have 5: "never_set 0 \<lparr>heap = take 5 throw_heap, cout = []\<rparr>"
    by (simp add: make_BinaryOperatorNode_def alloc_def throw_heap_def)
  from never_set.mk_binary [OF 5, of 3 4 add]
  show ?thesis
    by (simp add: make_BinaryOperatorNode_def alloc_def throw_heap_def)
qed

lemma reach_throw_heap: "reach throw_heap 5 0"
proof -
  have "reach throw_heap 0 0" by (rule reach.here) (simp add: throw_heap_def)
  then have "reach throw_heap 3 0"
    by (rule reach.below [rotated 2]) (simp_all add: throw_heap_def)
  then show ?thesis
    by (rule reach.below [rotated 2]) (simp_all add: throw_heap_def)
qed

subsection \<open>What the first loop does to the listed nodes\<close>

lemma eval_value_needCalc:
  assumes "eval ord h p = Some r"
  shows "\<forall>x. r = Inr x \<longrightarrow> (\<exists>d. needCalc h p = Some d)"
  apply (rule eval.raw_induct [OF _ assms])
  subgoal premises prems for ev ord h p r
  proof (intro allI impI)
    fix x assume r: "r = Inr x"
    note body = prems(2)
    note IH = prems(1) [THEN spec, THEN mp]
    from body obtain a where p: "p = Some a" and a: "a < length h"
      by (auto simp: deref_def split: option.splits if_splits)
    show "\<exists>d. needCalc h p = Some d"
    proof (cases "variant (h ! a)")
      case (ExpressionNode e nm)
      with body p a r IH [of ord h e "Inr x" x] show ?thesis
        by (simp add: deref_def needCalc_ExpressionNode [OF a ExpressionNode])
    next
      case ConstantNode
      from needCalc_ConstantNode [OF a this] p show ?thesis by blast
    next
      case (VariableNode d nm)
      from needCalc_VariableNode [OF a this] p show ?thesis by blast
    next
      case (UnaryOperatorNode q f)
      with body p a r obtain y where "ev ord h q = Some (Inr y)"
        by (auto simp: deref_def split: bind_splits sum.splits)
      with IH [of ord h q "Inr y" y] p show ?thesis
        by (simp add: needCalc_UnaryOperatorNode [OF a UnaryOperatorNode])
    next
      case (BinaryOperatorNode l r' f)
      with body p a r obtain y z where "ev ord h l = Some (Inr y)" "ev ord h r' = Some (Inr z)"
        by (cases ord) (auto simp: deref_def split: bind_splits sum.splits)
      with IH [of ord h l "Inr y" y] IH [of ord h r' "Inr z" z] p show ?thesis
        by (auto simp: needCalc_BinaryOperatorNode [OF a BinaryOperatorNode])
    qed
  qed
  done

lemma eval_Some_valid: "eval ord h p = Some r \<Longrightarrow> \<exists>a < length h. p = Some a"
  by (subst (asm) eval.simps) (auto simp: deref_def split: option.splits if_splits)

lemma calc_returns:
  assumes "eval ord (heap s) p = Some (Inr x)"
  shows "\<exists>v s'. calc ord s p = Some (Inr v, s')"
proof -
  from eval_Some_valid [OF assms] obtain a where a: "p = Some a" "a < length (heap s)" by blast
  from eval_value_needCalc [OF assms] obtain d where "needCalc (heap s) p = Some d" by blast
  with assms a show ?thesis by (auto simp: calc_def)
qed

lemma calc_all_returns:
  "\<forall>p \<in> set ps. \<exists>x. eval ord (heap s) p = Some (Inr x) \<Longrightarrow>
   \<exists>s1. calc_all ord ps s = Some (Inr (), s1)"
proof (induction ps arbitrary: s)
  case Nil
  then show ?case by simp
next
  case (Cons p ps)
  from Cons.prems obtain x where "eval ord (heap s) p = Some (Inr x)" by auto
  from calc_returns [OF this] obtain v s' where c: "calc ord s p = Some (Inr v, s')" by blast
  from Cons.prems calc_eval [OF c]
  have "\<forall>p \<in> set ps. \<exists>x. eval ord (heap s') p = Some (Inr x)" by simp
  from Cons.IH [OF this] c show ?case by simp
qed

lemma calc_all_untouched:
  "calc_all ord ps s = Some (r, s1) \<Longrightarrow> Some a \<notin> set ps \<Longrightarrow> heap s1 ! a = heap s ! a"
proof (induction ps arbitrary: s)
  case Nil
  then show ?case by simp
next
  case (Cons p ps)
  from Cons.prems(1) obtain r1 s' where c: "calc ord s p = Some (r1, s')"
    by (auto split: option.splits)
  from c obtain a' where a': "p = Some a'" by (auto simp: calc_def split: option.splits)
  with Cons.prems(2) c have same: "heap s' ! a = heap s ! a"
    by (auto dest: calc_other_nodes)
  show ?case
  proof (cases r1)
    case (Inl e)
    with Cons.prems(1) c same show ?thesis by simp
  next
    case (Inr v)
    with Cons.prems(1) c have "calc_all ord ps s' = Some (r, s1)" by simp
    from Cons.IH [OF this] Cons.prems(2) same show ?thesis by simp
  qed
qed

lemma calc_all_variant:
  "calc_all ord ps s = Some (r, s1) \<Longrightarrow> map variant (heap s1) = map variant (heap s)"
proof (induction ps arbitrary: s)
  case Nil
  then show ?case by simp
next
  case (Cons p ps)
  from Cons.prems obtain r1 s' where c: "calc ord s p = Some (r1, s')"
    by (auto split: option.splits)
  show ?case
  proof (cases r1)
    case (Inl e)
    with Cons.prems c calc_variant [OF c] show ?thesis by simp
  next
    case (Inr v)
    with Cons.prems c have "calc_all ord ps s' = Some (r, s1)" by simp
    from Cons.IH [OF this] calc_variant [OF c] show ?thesis by simp
  qed
qed

lemma calc_all_eval_view:
  "calc_all ord ps s = Some (r, s1) \<Longrightarrow> map eval_view (heap s1) = map eval_view (heap s)"
proof (induction ps arbitrary: s)
  case Nil
  then show ?case by simp
next
  case (Cons p ps)
  from Cons.prems obtain r1 s' where c: "calc ord s p = Some (r1, s')"
    by (auto split: option.splits)
  show ?case
  proof (cases r1)
    case (Inl e)
    with Cons.prems c calc_eval_view [OF c] show ?thesis by simp
  next
    case (Inr v)
    with Cons.prems c have "calc_all ord ps s' = Some (r, s1)" by simp
    from Cons.IH [OF this] calc_eval_view [OF c] show ?thesis by simp
  qed
qed

lemma calc_settled:
  assumes "calc ord s (Some a) = Some (Inr v, s')"
  shows "settled ord (heap s) a v"
  using assms by (rule calc_result) (auto simp: settled_def stale_def)

lemma settled_before_calc:
  assumes c: "calc ord s p = Some (Inr v, s')" and after: "settled ord (heap s') a w"
  shows "settled ord (heap s) a w"
proof (cases "p = Some a")
  case False
  from c obtain a' where "p = Some a'" by (auto simp: calc_def split: option.splits)
  with False c have "heap s' ! a = heap s ! a" by (auto dest: calc_other_nodes)
  with after calc_eval [OF c, of "Some a"] calc_needCalc [OF c, of "Some a"] show ?thesis
    by (auto simp: settled_def stale_def split: if_splits)
next
  case True
  with c have c': "calc ord s (Some a) = Some (Inr v, s')" by simp
  from calc_settled [OF c'] have now: "settled ord (heap s) a v" .
  from calc_stores_result [OF c'] have stored: "d_cachedValue (heap s' ! a) = v" .
  show ?thesis
  proof (cases "stale (heap s) a")
    case True
    with now have ev: "eval ord (heap s) (Some a) = Some (Inr v)" by (simp add: settled_def)
    with after stored calc_eval [OF c] have "w = v"
      by (auto simp: settled_def split: if_splits)
    with now show ?thesis by simp
  next
    case False
    with c' have "heap s' = heap s"
      by (elim calc_result) (auto simp: stale_def list_update_same_conv)
    with after show ?thesis by simp
  qed
qed

lemma calc_all_settled:
  "calc_all ord ps s = Some (Inr u, s1) \<Longrightarrow> Some a \<in> set ps \<Longrightarrow>
   settled ord (heap s) a (d_cachedValue (heap s1 ! a))"
proof (induction ps arbitrary: s)
  case Nil
  then show ?case by simp
next
  case (Cons p ps)
  from Cons.prems(1) obtain v s' where c: "calc ord s p = Some (Inr v, s')"
    and rest: "calc_all ord ps s' = Some (Inr u, s1)"
    by (auto split: option.splits sum.splits prod.splits)
  show ?case
  proof (cases "Some a \<in> set ps")
    case True
    from settled_before_calc [OF c Cons.IH [OF rest True]] show ?thesis .
  next
    case False
    with Cons.prems(2) have p: "p = Some a" by simp
    from calc_all_untouched [OF rest False] calc_stores_result [of ord s a v s'] c p
    have "d_cachedValue (heap s1 ! a) = v" by simp
    with calc_settled [of ord s a v s'] c p show ?thesis by simp
  qed
qed

lemma calc_all_first_failure:
  assumes before: "\<forall>p \<in> set xs. \<exists>x. eval ord (heap s) p = Some (Inr x)"
    and st: "stale (heap s) a" and fails: "eval ord (heap s) (Some a) = Some (Inl e)"
  shows "\<exists>s1. calc_all ord xs s = Some (Inr (), s1) \<and>
              calc_all ord (xs @ Some a # ys) s = Some (Inl e, s1) \<and>
              map variant (heap s1) = map variant (heap s)"
proof -
  from calc_all_returns [OF before] obtain s1 where 1: "calc_all ord xs s = Some (Inr (), s1)"
    by blast
  have "Some a \<notin> set xs" using before fails by auto
  from calc_all_untouched [OF 1 this] have same: "heap s1 ! a = heap s ! a" .
  note var = calc_all_variant [OF 1]
  have ev: "eval ord (heap s1) (Some a) = Some (Inl e)"
    using eval_view_cong [OF calc_all_eval_view [OF 1]] fails by simp
  have nc: "needCalc (heap s1) (Some a) = needCalc (heap s) (Some a)"
    by (rule needCalc_variant_cong [OF var])
  from eval_Some_valid [OF ev] have len: "a < length (heap s1)" by simp
  from st same nc have "isnan (d_cachedValue (heap s1 ! a)) \<or>
      needCalc (heap s1) (Some a) = Some True"
    by (simp add: stale_def)
  from calc_stale [OF len this] ev have "calc ord s1 (Some a) = Some (Inl e, s1)" by simp
  with 1 var show ?thesis by (simp add: calc_all_append)
qed

lemma cache_all_returns:
  "\<forall>kv \<in> set vm. \<exists>b d nm. snd kv = Some b \<and> b < length h \<and> variant (h ! b) = VariableNode d nm \<Longrightarrow>
   \<exists>h2. cache_all vm h = Some h2"
proof (induction vm arbitrary: h)
  case Nil
  then show ?case by simp
next
  case (Cons kv vm)
  from Cons.prems obtain b d nm where b: "snd kv = Some b" "b < length h"
    "variant (h ! b) = VariableNode d nm" by auto
  define h' where "h' = h[b := (h ! b)\<lparr>variant := VariableNode False nm\<rparr>]"
  from b have 1: "VariableNode_cache h (snd kv) = Some h'"
    by (simp add: VariableNode_cache_def h'_def)
  have "\<forall>kv \<in> set vm. \<exists>b d nm. snd kv = Some b \<and> b < length h' \<and>
      variant (h' ! b) = VariableNode d nm"
  proof
    fix kv' assume "kv' \<in> set vm"
    with Cons.prems obtain b' d' nm' where "snd kv' = Some b'" "b' < length h"
      "variant (h ! b') = VariableNode d' nm'" by auto
    with b show "\<exists>b d nm. snd kv' = Some b \<and> b < length h' \<and> variant (h' ! b) = VariableNode d nm"
      by (cases "b' = b") (auto simp: h'_def)
  qed
  from Cons.IH [OF this] 1 show ?case by simp
qed

lemma VariableNode_cache_result:
  assumes "VariableNode_cache h p = Some h'"
  shows "map eval_view h' = map eval_view h"
    and "d_cachedValue (h' ! a) = d_cachedValue (h ! a)"
    and "variant (h' ! a) = VariableNode d nm \<Longrightarrow> \<exists>d'. variant (h ! a) = VariableNode d' nm"
    and "p \<noteq> Some a \<Longrightarrow> h' ! a = h ! a"
proof -
  from assms obtain q d0 nm0 where q: "p = Some q" "q < length h"
    "variant (h ! q) = VariableNode d0 nm0"
    and h': "h' = h[q := (h ! q)\<lparr>variant := VariableNode False nm0\<rparr>]"
    by (auto simp: VariableNode_cache_def split: option.splits if_splits variant.splits)
  have "eval_view ((h ! q)\<lparr>variant := VariableNode False nm0\<rparr>) = eval_view (h ! q)"
    using q(3) by (simp add: eval_view_def)
  with q(2) h' show "map eval_view h' = map eval_view h"
    by (simp add: map_update list_update_same_conv)
  from h' q(2) show "d_cachedValue (h' ! a) = d_cachedValue (h ! a)"
    by (cases "a = q") simp_all
  from h' q(2,3) show "\<exists>d'. variant (h ! a) = VariableNode d' nm"
    if "variant (h' ! a) = VariableNode d nm"
    using that by (cases "a = q") simp_all
  from h' q(1) show "h' ! a = h ! a" if "p \<noteq> Some a"
    using that by simp
qed

lemma cache_all_result:
  "cache_all vm h = Some h2 \<Longrightarrow>
   map (\<lambda>n. operands (variant n)) h2 = map (\<lambda>n. operands (variant n)) h \<and>
   map eval_view h2 = map eval_view h \<and>
   d_cachedValue (h2 ! a) = d_cachedValue (h ! a) \<and>
   (variant (h2 ! a) = VariableNode d nm \<longrightarrow> (\<exists>d'. variant (h ! a) = VariableNode d' nm)) \<and>
   (Some a \<notin> snd ` set vm \<longrightarrow> h2 ! a = h ! a)"
proof (induction vm arbitrary: h d)
  case Nil
  then show ?case by simp
next
  case (Cons kv vm)
  from Cons.prems obtain h' where 1: "VariableNode_cache h (snd kv) = Some h'"
    and 2: "cache_all vm h' = Some h2"
    by (auto split: option.splits)
  note IH = Cons.IH [OF 2]
  note R = VariableNode_cache_result [OF 1]
  have "map (\<lambda>n. operands (variant n)) h2 = map (\<lambda>n. operands (variant n)) h"
    using IH VariableNode_cache_shape [OF 1] by simp
  moreover have "map eval_view h2 = map eval_view h" using IH R(1) by simp
  moreover have "d_cachedValue (h2 ! a) = d_cachedValue (h ! a)" using IH R(2) by simp
  moreover have "\<exists>d'. variant (h ! a) = VariableNode d' nm"
    if "variant (h2 ! a) = VariableNode d nm"
  proof -
    from IH [of d] that obtain d1 where "variant (h' ! a) = VariableNode d1 nm" by blast
    from R(3) [OF this] show ?thesis .
  qed
  moreover have "h2 ! a = h ! a" if "Some a \<notin> snd ` set (kv # vm)"
  proof -
    from that have "snd kv \<noteq> Some a" "Some a \<notin> snd ` set vm" by auto
    with IH R(4) show ?thesis by simp
  qed
  ultimately show ?case by blast
qed

lemma calc_all_no_throw:
  "wf_heap (heap s) \<Longrightarrow> \<forall>c < length (heap s). no_throw (variant (heap s ! c)) \<Longrightarrow>
   \<forall>p \<in> set ps. \<exists>a' < length (heap s). p = Some a' \<Longrightarrow>
   calc_all ord ps s = Some (Inl e, s') \<Longrightarrow> e = NotSet"
proof (induction ps arbitrary: s)
  case Nil
  then show ?case by simp
next
  case (Cons p ps)
  from Cons.prems(3) obtain a' where a': "p = Some a'" "a' < length (heap s)" by auto
  from Cons.prems(4) obtain r1 s1 where c: "calc ord s p = Some (r1, s1)"
    by (auto split: option.splits)
  show ?case
  proof (cases r1)
    case (Inl e1)
    with Cons.prems(4) c have "e1 = e" by simp
    with calc_raises c Inl have ev: "eval ord (heap s) (Some a') = Some (Inl e)"
      using a'(1) by blast
    have "\<forall>c. reach (heap s) a' c \<longrightarrow> no_throw (variant (heap s ! c))"
      using Cons.prems(2) reach_length by blast
    from eval_no_throw [OF Cons.prems(1) a'(2) this ev] show ?thesis .
  next
    case (Inr v)
    with Cons.prems(4) c have rest: "calc_all ord ps s1 = Some (Inl e, s')" by simp
    note var = calc_variant [OF c]
    note len = calc_length [OF c]
    have wf1: "wf_heap (heap s1)"
      by (rule wf_heap_shape [OF variant_shape [OF var] Cons.prems(1)])
    have nt1: "\<forall>c < length (heap s1). no_throw (variant (heap s1 ! c))"
      using Cons.prems(2) len calc_variant_nth [OF c] by simp
    have valid1: "\<forall>p \<in> set ps. \<exists>a' < length (heap s1). p = Some a'"
      using Cons.prems(3) len by simp
    from Cons.IH [OF wf1 nt1 valid1 rest] show ?thesis .
  qed
qed

lemma calc_all_at_split:
  assumes "i < length xs"
  shows "xs @ [new] = take i xs @ (xs ! i # (drop (Suc i) xs @ [new]))"
proof -
  have "xs @ [new] = (take i xs @ xs ! i # drop (Suc i) xs) @ [new]"
    using id_take_nth_drop [OF assms] by (rule arg_cong)
  then show ?thesis by simp
qed

lemma calc_all_at:
  assumes "i < length xs"
  shows "calc_all ord (xs @ [new]) s =
     (case calc_all ord (take i xs) s of
        None \<Rightarrow> None
      | Some (Inl e, s1) \<Rightarrow> Some (Inl e, s1)
      | Some (Inr u, s1) \<Rightarrow>
         (case calc ord s1 (xs ! i) of
            None \<Rightarrow> None
          | Some (Inl e, s2) \<Rightarrow> Some (Inl e, s2)
          | Some (Inr v, s2) \<Rightarrow>
             (case calc_all ord (drop (Suc i) xs) s2 of
                None \<Rightarrow> None
              | Some (Inl e, s3) \<Rightarrow> Some (Inl e, s3)
              | Some (Inr u, s3) \<Rightarrow>
                 (case calc ord s3 new of
                    None \<Rightarrow> None
                  | Some (Inl e, s4) \<Rightarrow> Some (Inl e, s4)
                  | Some (Inr v, s4) \<Rightarrow> Some (Inr (), s4)))))"
proof -
  from calc_all_at_split [OF assms]
  have "xs @ [new] = take i xs @ (xs ! i # (drop (Suc i) xs @ [new]))" .
  then have "calc_all ord (xs @ [new]) s =
      calc_all ord (take i xs @ (xs ! i # (drop (Suc i) xs @ [new]))) s"
    by (rule arg_cong)
  also have "\<dots> = (case calc_all ord (take i xs) s of
        None \<Rightarrow> None
      | Some (Inl e, s1) \<Rightarrow> Some (Inl e, s1)
      | Some (Inr u, s1) \<Rightarrow>
         (case calc ord s1 (xs ! i) of
            None \<Rightarrow> None
          | Some (Inl e, s2) \<Rightarrow> Some (Inl e, s2)
          | Some (Inr v, s2) \<Rightarrow>
             (case calc_all ord (drop (Suc i) xs) s2 of
                None \<Rightarrow> None
              | Some (Inl e, s3) \<Rightarrow> Some (Inl e, s3)
              | Some (Inr u, s3) \<Rightarrow>
                 (case calc ord s3 new of
                    None \<Rightarrow> None
                  | Some (Inl e, s4) \<Rightarrow> Some (Inl e, s4)
                  | Some (Inr v, s4) \<Rightarrow> Some (Inr (), s4)))))"
    by (simp add: calc_all_append split: option.splits sum.splits prod.splits)
  finally show ?thesis .
qed

lemma isnan_NaN: "isnan v \<Longrightarrow> v = NaN"
  by (cases v) simp_all

lemma wf_shared_heap: "wf_heap (shared_heap va da m1 e1 m2 e2)"
  unfolding wf_heap_def shared_heap_def
  by (simp add: less_Suc_eq eval_nat_numeral)

lemma shared_heap_variables:
  assumes "b < length (shared_heap va da m1 e1 m2 e2)"
    and "variant (shared_heap va da m1 e1 m2 e2 ! b) = VariableNode d nm"
  shows "b = 0"
proof (rule ccontr)
  assume "b \<noteq> 0"
  with assms(1) have "b = 1 \<or> b = 2 \<or> b = 3 \<or> b = 4 \<or> b = 5 \<or> b = 6"
    by (auto simp: shared_heap_def)
  with assms(2) show False by (auto simp: shared_heap_def)
qed

subsection \<open>Dirtiness is read off the variables below a node\<close>

lemma needCalc_dirty_below:
  assumes "wf_heap h"
  shows "reach h a b \<Longrightarrow> variant (h ! b) = VariableNode True nm \<Longrightarrow>
         needCalc h (Some a) = Some True"
proof (induction rule: reach.induct)
  case (here a)
  then show ?case by (simp add: needCalc_VariableNode)
next
  case (below a b c)
  from below have IH: "needCalc h (Some b) = Some True" by simp
  note ops = wf_operand [OF assms below.hyps(1)]
  show ?case
  proof (cases "variant (h ! a)")
    case (ExpressionNode e nm)
    with below.hyps(2) IH needCalc_ExpressionNode [OF below.hyps(1) ExpressionNode]
    show ?thesis by simp
  next
    case ConstantNode
    with below.hyps(2) show ?thesis by simp
  next
    case (VariableNode d nm)
    with below.hyps(2) show ?thesis by simp
  next
    case (UnaryOperatorNode q f)
    with below.hyps(2) IH needCalc_UnaryOperatorNode [OF below.hyps(1) UnaryOperatorNode]
    show ?thesis by simp
  next
    case (BinaryOperatorNode l r f)
    with ops [of l] obtain bl where bl: "bl < a" "l = Some bl" by auto
    with below.hyps(1) have "bl < length h" by simp
    from needCalc_total [OF assms this] bl(2) below.hyps(2) IH BinaryOperatorNode
      needCalc_BinaryOperatorNode [OF below.hyps(1) BinaryOperatorNode]
    show ?thesis by auto
  qed
qed

lemma needCalc_ignores_cache:
  "needCalc (h[b := (h ! b)\<lparr>d_cachedValue := w\<rparr>]) p = needCalc h p"
proof (rule needCalc_variant_cong)
  show "map variant (h[b := (h ! b)\<lparr>d_cachedValue := w\<rparr>]) = map variant h"
    by (cases "b < length h") (simp_all add: map_update list_update_same_conv list_update_beyond)
qed

lemma wf_sample_heap: "wf_heap sample_heap"
  unfolding wf_heap_def sample_heap_def
  by (simp add: less_Suc_eq eval_nat_numeral)

lemma reach_sample_heap: "reach sample_heap 4 0"
proof -
  have "reach sample_heap 0 0" by (rule reach.here) (simp add: sample_heap_def)
  then have "reach sample_heap 2 0"
    by (rule reach.below [rotated 2]) (simp_all add: sample_heap_def)
  then have "reach sample_heap 3 0"
    by (rule reach.below [rotated 2]) (simp_all add: sample_heap_def)
  then show ?thesis
    by (rule reach.below [rotated 2]) (simp_all add: sample_heap_def)
qed

subsection \<open>A registered expression is in the list of expressions\<close>

lemma listed_empty:
  "map_of (d_expressionMap empty_context) name = Some (Some t) \<Longrightarrow>
   Some t \<in> set (d_expressions empty_context)"
  by (simp add: empty_context_def)

lemma listed_addExpression:
  assumes "\<forall>name t. map_of (d_expressionMap c) name = Some (Some t) \<longrightarrow>
             Some t \<in> set (d_expressions c)"
    and "map_of (d_expressionMap (addExpression c n e)) name = Some (Some t)"
  shows "Some t \<in> set (d_expressions (addExpression c n e))"
  using assms by (auto simp: addExpression_def update_conv' split: if_splits)

lemma listed_others:
  assumes "\<forall>name t. map_of (d_expressionMap c) name = Some (Some t) \<longrightarrow>
             Some t \<in> set (d_expressions c)"
  shows "map_of (d_expressionMap (addVariable c n v)) name = Some (Some t) \<Longrightarrow>
           Some t \<in> set (d_expressions (addVariable c n v))"
    and "map_of (d_expressionMap (snd (getExpression c n))) name = Some (Some t) \<Longrightarrow>
           Some t \<in> set (d_expressions (snd (getExpression c n)))"
    and "map_of (d_expressionMap (snd (getVariable c n))) name = Some (Some t) \<Longrightarrow>
           Some t \<in> set (d_expressions (snd (getVariable c n)))"
  using assms
  by (auto simp: addVariable_def getExpression_def getVariable_def map_index_def update_conv'
      split: option.splits if_splits)

subsection \<open>The example graphs are what the constructors build\<close>

lemma shared_heap_constructed:
  "(case make_VariableNode ''a'' [] of (a, h0) \<Rightarrow>
    case make_ConstantNode (Num 2) h0 of (c2, h1) \<Rightarrow>
    case make_BinaryOperatorNode a c2 mul h1 of (m1, h2) \<Rightarrow>
    case make_ExpressionNode ''E1'' m1 h2 of (e1, h3) \<Rightarrow>
    case make_ConstantNode (Num 3) h3 of (c3, h4) \<Rightarrow>
    case make_BinaryOperatorNode a c3 mul h4 of (m2, h5) \<Rightarrow>
    case make_ExpressionNode ''E2'' m2 h5 of (e2, h6) \<Rightarrow> (a, e1, e2, h6)) =
   (Some 0, Some 3, Some 6, shared_heap NaN True NaN NaN NaN NaN)"
  by (simp add: make_VariableNode_def make_ConstantNode_def make_BinaryOperatorNode_def
      make_ExpressionNode_def alloc_def shared_heap_def)

lemma chain_heap_constructed:
  "(case make_VariableNode ''a'' [] of (a, h0) \<Rightarrow>
    case make_UnaryOperatorNode a neg h0 of (u, h1) \<Rightarrow>
    case make_UnaryOperatorNode u neg h1 of (p, h2) \<Rightarrow> (a, u, p, h2)) =
   (Some 0, Some 1, Some 2, chain_heap NaN True NaN NaN)"
  by (simp add: make_VariableNode_def make_UnaryOperatorNode_def alloc_def chain_heap_def)

lemma unregistered_heap_constructed:
  "(case make_VariableNode ''a'' [] of (a, h0) \<Rightarrow>
    case VariableNode_set h0 a (Num 5) of
      None \<Rightarrow> None
    | Some h1 \<Rightarrow> (case make_ExpressionNode ''E'' a h1 of (e, h2) \<Rightarrow> Some (a, e, h2))) =
   Some (Some 0, Some 1, unregistered_heap NaN)"
  by (simp add: make_VariableNode_def make_ExpressionNode_def VariableNode_set_def alloc_def
      unregistered_heap_def)

subsection \<open>A recalculation returns\<close>

lemma recalculation_steps:
  assumes evals: "\<forall>p \<in> set (d_expressions c). \<exists>x. eval ord (heap s) p = Some (Inr x)"
    and vars: "\<forall>kv \<in> set (d_variableMap c). \<exists>b d nm. snd kv = Some b \<and> b < length (heap s) \<and>
                 variant (heap s ! b) = VariableNode d nm"
    and target: "map_of (d_expressionMap c) name = Some (Some t)"
    and listed: "Some t \<in> set (d_expressions c)"
  shows "\<exists>s1 h2 v s'.
           calc_all ord (d_expressions c) s = Some (Inr (), s1) \<and>
           (\<forall>a. Some a \<in> set (d_expressions c) \<longrightarrow>
              settled ord (heap s) a (d_cachedValue (heap s1 ! a))) \<and>
           (\<forall>a. Some a \<notin> set (d_expressions c) \<longrightarrow> heap s1 ! a = heap s ! a) \<and>
           map variant (heap s1) = map variant (heap s) \<and>
           cache_all (d_variableMap c) (heap s1) = Some h2 \<and>
           (\<forall>kv \<in> set (d_variableMap c). needCalc h2 (snd kv) = Some False) \<and>
           (\<forall>a. d_cachedValue (h2 ! a) = d_cachedValue (heap s1 ! a)) \<and>
           (\<forall>a. Some a \<notin> snd ` set (d_variableMap c) \<longrightarrow> h2 ! a = heap s1 ! a) \<and>
           calc ord \<lparr>heap = h2, cout = cout s1\<rparr> (Some t) = Some (Inr v, s') \<and>
           EvaluationContext_calc ord c s name = Some (Inr v, s')"
proof -
  from calc_all_returns [OF evals] obtain s1
    where loop1: "calc_all ord (d_expressions c) s = Some (Inr (), s1)" by blast
  note var1 = calc_all_variant [OF loop1]
  have vars1: "\<forall>kv \<in> set (d_variableMap c). \<exists>b d nm. snd kv = Some b \<and> b < length (heap s1) \<and>
      variant (heap s1 ! b) = VariableNode d nm"
  proof
    fix kv assume "kv \<in> set (d_variableMap c)"
    with vars obtain b d nm where b: "snd kv = Some b" "b < length (heap s)"
      "variant (heap s ! b) = VariableNode d nm" by blast
    from var1 b(2) have "length (heap s1) = length (heap s)"
      "variant (heap s1 ! b) = variant (heap s ! b)"
      by (metis length_map, metis length_map nth_map)
    with b show "\<exists>b d nm. snd kv = Some b \<and> b < length (heap s1) \<and>
        variant (heap s1 ! b) = VariableNode d nm" by simp
  qed
  from cache_all_returns [OF vars1] obtain h2
    where loop2: "cache_all (d_variableMap c) (heap s1) = Some h2" by blast
  note res2 = cache_all_result [OF loop2]
  let ?s2 = "\<lparr>heap = h2, cout = cout s1\<rparr>"
  from evals listed obtain x where "eval ord (heap s) (Some t) = Some (Inr x)" by blast
  moreover have "eval ord h2 (Some t) = eval ord (heap s) (Some t)"
    using eval_view_cong [of h2 "heap s1"] eval_view_cong [OF calc_all_eval_view [OF loop1]] res2
    by simp
  ultimately have "eval ord (heap ?s2) (Some t) = Some (Inr x)" by simp
  from calc_returns [OF this] obtain v s'
    where last: "calc ord ?s2 (Some t) = Some (Inr v, s')" by blast
  have s2: "s1\<lparr>heap := h2\<rparr> = ?s2" by simp
  have whole: "EvaluationContext_calc ord c s name = Some (Inr v, s')"
    using loop1 loop2 target last by (simp add: EvaluationContext_calc_def s2)
  have settled1: "\<forall>a. Some a \<in> set (d_expressions c) \<longrightarrow>
      settled ord (heap s) a (d_cachedValue (heap s1 ! a))"
    using calc_all_settled [OF loop1] by blast
  have untouched1: "\<forall>a. Some a \<notin> set (d_expressions c) \<longrightarrow> heap s1 ! a = heap s ! a"
    using calc_all_untouched [OF loop1] by blast
  have clean2: "\<forall>kv \<in> set (d_variableMap c). needCalc h2 (snd kv) = Some False"
    using cache_all_clean [OF loop2] by blast
  have values2: "\<forall>a. d_cachedValue (h2 ! a) = d_cachedValue (heap s1 ! a)"
    using res2 by blast
  have others2: "\<forall>a. Some a \<notin> snd ` set (d_variableMap c) \<longrightarrow> h2 ! a = heap s1 ! a"
    using res2 by blast
  from loop1 settled1 untouched1 var1 loop2 clean2 values2 others2 last whole
  show ?thesis by blast
qed

subsection \<open>Claims\<close>

text \<open>
  C1, as the code has it. Take a graph built by the constructors, a context in which
  every listed expression evaluates to a value (no variable below it is unset and no
  function below it throws) and every entry of the variable map is a variable, and a
  name registered to a node that is in the list of expressions. Then the recalculation
  returns a value, and it has done three things in this order. The first loop has run
  to its end: every listed node that was stale (cached value NaN, or dirty) now caches
  what \<^verbatim>\<open>eval()\<close> returns for it, every listed node that was not stale keeps its cached
  value, nothing else is touched and no dirty flag has changed. The second loop has
  then marked every variable of the map clean; it changes no cached value and no other
  node. Last, \<^verbatim>\<open>calc()\<close> on the target has returned the value of the recalculation. If
  every variable in the operand subgraph of the target is in the variable map and the
  value is not NaN, this last \<^verbatim>\<open>calc()\<close> returns the cached value: it writes
  \<^verbatim>\<open>Using cache\<close> and leaves the heap as the two loops left it. If a dirty variable in
  the operand subgraph of the target is not in the variable map, that variable is not
  frozen: the last \<^verbatim>\<open>calc()\<close> recomputes the target with \<^verbatim>\<open>eval()\<close>, stores the
  result, writes nothing, and the variable is still dirty afterwards.
\<close>

theorem recalculate_three_steps:
  assumes wf: "wf_heap (heap s)"
    and evals: "\<forall>p \<in> set (d_expressions c). \<exists>x. eval ord (heap s) p = Some (Inr x)"
    and vars: "\<forall>kv \<in> set (d_variableMap c). \<exists>b d nm. snd kv = Some b \<and> b < length (heap s) \<and>
                 variant (heap s ! b) = VariableNode d nm"
    and target: "map_of (d_expressionMap c) name = Some (Some t)"
    and listed: "Some t \<in> set (d_expressions c)"
  shows "\<exists>s1 h2 v s'.
           calc_all ord (d_expressions c) s = Some (Inr (), s1) \<and>
           (\<forall>a. Some a \<in> set (d_expressions c) \<longrightarrow>
              settled ord (heap s) a (d_cachedValue (heap s1 ! a))) \<and>
           (\<forall>a. Some a \<notin> set (d_expressions c) \<longrightarrow> heap s1 ! a = heap s ! a) \<and>
           map variant (heap s1) = map variant (heap s) \<and>
           cache_all (d_variableMap c) (heap s1) = Some h2 \<and>
           (\<forall>kv \<in> set (d_variableMap c). needCalc h2 (snd kv) = Some False) \<and>
           (\<forall>a. d_cachedValue (h2 ! a) = d_cachedValue (heap s1 ! a)) \<and>
           (\<forall>a. Some a \<notin> snd ` set (d_variableMap c) \<longrightarrow> h2 ! a = heap s1 ! a) \<and>
           calc ord \<lparr>heap = h2, cout = cout s1\<rparr> (Some t) = Some (Inr v, s') \<and>
           EvaluationContext_calc ord c s name = Some (Inr v, s') \<and>
           ((\<forall>b d nm. reach (heap s) t b \<longrightarrow> variant (heap s ! b) = VariableNode d nm \<longrightarrow>
                Some b \<in> snd ` set (d_variableMap c)) \<longrightarrow>
              \<not> isnan v \<longrightarrow>
              v = d_cachedValue (h2 ! t) \<and>
              s' = \<lparr>heap = h2, cout = cout s1 @ [''Using cache'']\<rparr>) \<and>
           (\<forall>b nm. reach (heap s) t b \<longrightarrow> variant (heap s ! b) = VariableNode True nm \<longrightarrow>
              Some b \<notin> snd ` set (d_variableMap c) \<longrightarrow>
              eval ord h2 (Some t) = Some (Inr v) \<and>
              s' = \<lparr>heap = h2[t := (h2 ! t)\<lparr>d_cachedValue := v\<rparr>], cout = cout s1\<rparr> \<and>
              needCalc (heap s') (Some b) = Some True)"
proof -
  from recalculation_steps [OF evals vars target listed] obtain s1 h2 v s'
    where loop1: "calc_all ord (d_expressions c) s = Some (Inr (), s1)"
      and settled1: "\<forall>a. Some a \<in> set (d_expressions c) \<longrightarrow>
              settled ord (heap s) a (d_cachedValue (heap s1 ! a))"
      and untouched1: "\<forall>a. Some a \<notin> set (d_expressions c) \<longrightarrow> heap s1 ! a = heap s ! a"
      and var1: "map variant (heap s1) = map variant (heap s)"
      and loop2: "cache_all (d_variableMap c) (heap s1) = Some h2"
      and clean2: "\<forall>kv \<in> set (d_variableMap c). needCalc h2 (snd kv) = Some False"
      and values2: "\<forall>a. d_cachedValue (h2 ! a) = d_cachedValue (heap s1 ! a)"
      and others2: "\<forall>a. Some a \<notin> snd ` set (d_variableMap c) \<longrightarrow> h2 ! a = heap s1 ! a"
      and last: "calc ord \<lparr>heap = h2, cout = cout s1\<rparr> (Some t) = Some (Inr v, s')"
      and whole: "EvaluationContext_calc ord c s name = Some (Inr v, s')"
    by blast
  let ?s2 = "\<lparr>heap = h2, cout = cout s1\<rparr>"
  note res2 = cache_all_result [OF loop2]
  have shape2: "map (\<lambda>n. operands (variant n)) h2 = map (\<lambda>n. operands (variant n)) (heap s)"
    using res2 variant_shape [OF var1] by simp
  have wf2: "wf_heap h2" by (rule wf_heap_shape [OF shape2 wf])
  from last have len2: "t < length h2" by (rule calc_result) simp
  have ev2: "eval ord h2 (Some t) = eval ord (heap s) (Some t)"
    using eval_view_cong [of h2 "heap s1"] eval_view_cong [OF calc_all_eval_view [OF loop1]] res2
    by simp
  have var_back: "variant (heap s1 ! b) = variant (heap s ! b)" if "b < length (heap s)" for b
    using var1 that by (metis length_map nth_map)
  have memo: "v = d_cachedValue (h2 ! t) \<and> s' = \<lparr>heap = h2, cout = cout s1 @ [''Using cache'']\<rparr>"
    if reg: "\<forall>b d nm. reach (heap s) t b \<longrightarrow> variant (heap s ! b) = VariableNode d nm \<longrightarrow>
                Some b \<in> snd ` set (d_variableMap c)"
      and v: "\<not> isnan v"
  proof -
    have clean: "\<forall>b nm. reach h2 t b \<longrightarrow> variant (h2 ! b) \<noteq> VariableNode True nm"
    proof (intro allI impI notI)
      fix b nm
      assume r2: "reach h2 t b" and dirty: "variant (h2 ! b) = VariableNode True nm"
      from reach_shape [OF shape2 [symmetric] r2] have r: "reach (heap s) t b" .
      from reach_length [OF r] have lenb: "b < length (heap s)" by simp
      from res2 [of b True nm] dirty obtain d1 where "variant (heap s1 ! b) = VariableNode d1 nm"
        by blast
      with var_back [OF lenb] have "variant (heap s ! b) = VariableNode d1 nm" by simp
      with reg r have "Some b \<in> snd ` set (d_variableMap c)" by blast
      then obtain kv where "kv \<in> set (d_variableMap c)" "snd kv = Some b" by auto
      with clean2 have "needCalc h2 (Some b) = Some False" by metis
      moreover from reach_length [OF r2] dirty have "needCalc h2 (Some b) = Some True"
        by (simp add: needCalc_VariableNode)
      ultimately show False by simp
    qed
    from needCalc_clean_below [OF wf2 len2 clean]
    have need2: "needCalc h2 (Some t) = Some False" .
    have "\<not> isnan (d_cachedValue (h2 ! t))"
    proof
      assume nan: "isnan (d_cachedValue (h2 ! t))"
      with last len2 have ev: "eval ord h2 (Some t) = Some (Inr v)"
        by (auto simp: calc_def split: bind_splits sum.splits)
      from settled1 listed have st: "settled ord (heap s) t (d_cachedValue (heap s1 ! t))" by blast
      from nan values2 have nan1: "isnan (d_cachedValue (heap s1 ! t))" by simp
      show False
      proof (cases "stale (heap s) t")
        case True
        with st ev ev2 have "d_cachedValue (heap s1 ! t) = v" by (simp add: settled_def)
        with nan1 v show False by simp
      next
        case False
        with st have "d_cachedValue (heap s1 ! t) = d_cachedValue (heap s ! t)"
          by (simp add: settled_def)
        with False nan1 show False by (simp add: stale_def)
      qed
    qed
    with calc_fresh [of t ?s2] len2 need2 last show ?thesis by simp
  qed
  have recompute: "eval ord h2 (Some t) = Some (Inr v) \<and>
      s' = \<lparr>heap = h2[t := (h2 ! t)\<lparr>d_cachedValue := v\<rparr>], cout = cout s1\<rparr> \<and>
      needCalc (heap s') (Some b) = Some True"
    if r: "reach (heap s) t b" and dirty: "variant (heap s ! b) = VariableNode True nm"
      and unreg: "Some b \<notin> snd ` set (d_variableMap c)" for b nm
  proof -
    from reach_length [OF r] have lenb: "b < length (heap s)" by simp
    from others2 unreg var_back [OF lenb] dirty
    have dirty2: "variant (h2 ! b) = VariableNode True nm" by simp
    from reach_shape [OF shape2 r] have r2: "reach h2 t b" .
    from needCalc_dirty_below [OF wf2 r2 dirty2]
    have need2: "needCalc h2 (Some t) = Some True" .
    from calc_stale [of t ?s2 ord] len2 need2 last
    have 1: "eval ord h2 (Some t) = Some (Inr v)"
      and 2: "s' = \<lparr>heap = h2[t := (h2 ! t)\<lparr>d_cachedValue := v\<rparr>], cout = cout s1\<rparr>"
      by (auto split: option.splits sum.splits)
    from reach_length [OF r2] have lenb2: "b < length h2" by simp
    from calc_variant_nth [OF last] lenb2 dirty2
    have "variant (heap s' ! b) = VariableNode True nm" by simp
    moreover from calc_length [OF last] lenb2 have "b < length (heap s')" by simp
    ultimately have "needCalc (heap s') (Some b) = Some True"
      by (simp add: needCalc_VariableNode)
    with 1 2 show ?thesis by simp
  qed
  from loop1 settled1 untouched1 var1 loop2 clean2 values2 others2 last whole memo recompute
  show ?thesis by blast
qed

theorem recalculate_three_steps_witness:
  "wf_heap (shared_heap (Num 5) True NaN NaN NaN NaN) \<and>
   d_expressions shared_context = [Some 3, Some 6] \<and>
   d_variableMap shared_context = [(''a'', Some 0)] \<and>
   eval LeftFirst (shared_heap (Num 5) True NaN NaN NaN NaN) (Some 3) = Some (Inr (Num 10)) \<and>
   eval LeftFirst (shared_heap (Num 5) True NaN NaN NaN NaN) (Some 6) = Some (Inr (Num 15)) \<and>
   variant (shared_heap (Num 5) True NaN NaN NaN NaN ! 0) = VariableNode True ''a'' \<and>
   map_of (d_expressionMap shared_context) ''E1'' = Some (Some 3) \<and>
   EvaluationContext_calc LeftFirst shared_context
      \<lparr>heap = shared_heap (Num 5) True NaN NaN NaN NaN, cout = []\<rparr> ''E1'' =
     Some (Inr (Num 10),
           \<lparr>heap = shared_heap (Num 5) False NaN (Num 10) NaN (Num 15),
            cout = [''Using cache'']\<rparr>) \<and>
   (\<exists>s1 h2. calc_all LeftFirst (d_expressions shared_context)
               \<lparr>heap = shared_heap (Num 5) True NaN NaN NaN NaN, cout = []\<rparr> =
               Some (Inr (), s1) \<and>
            settled LeftFirst (shared_heap (Num 5) True NaN NaN NaN NaN) 6
               (d_cachedValue (heap s1 ! 6)) \<and>
            cache_all (d_variableMap shared_context) (heap s1) = Some h2 \<and>
            needCalc h2 (Some 0) = Some False \<and>
            d_cachedValue (h2 ! 3) = Num 10 \<and>
            \<lparr>heap = shared_heap (Num 5) False NaN (Num 10) NaN (Num 15),
             cout = [''Using cache'']\<rparr> =
              \<lparr>heap = h2, cout = cout s1 @ [''Using cache'']\<rparr>) \<and>
   wf_heap (unregistered_heap NaN) \<and>
   reach (unregistered_heap NaN) 1 0 \<and>
   Some 0 \<notin> snd ` set (d_variableMap (addExpression empty_context ''E'' (Some 1))) \<and>
   (\<exists>s1 h2 s'. calc_all LeftFirst (d_expressions (addExpression empty_context ''E'' (Some 1)))
               \<lparr>heap = unregistered_heap NaN, cout = []\<rparr> = Some (Inr (), s1) \<and>
            cache_all (d_variableMap (addExpression empty_context ''E'' (Some 1))) (heap s1) =
               Some h2 \<and>
            EvaluationContext_calc LeftFirst (addExpression empty_context ''E'' (Some 1))
               \<lparr>heap = unregistered_heap NaN, cout = []\<rparr> ''E'' = Some (Inr (Num 5), s') \<and>
            eval LeftFirst h2 (Some 1) = Some (Inr (Num 5)) \<and>
            s' = \<lparr>heap = h2[1 := (h2 ! 1)\<lparr>d_cachedValue := Num 5\<rparr>], cout = cout s1\<rparr> \<and>
            needCalc (heap s') (Some 0) = Some True)"
proof -
  let ?h = "shared_heap (Num 5) True NaN NaN NaN NaN"
  let ?s = "\<lparr>heap = ?h, cout = []\<rparr>"
  let ?s' = "\<lparr>heap = shared_heap (Num 5) False NaN (Num 10) NaN (Num 15),
              cout = [''Using cache'']\<rparr>"
  have returns: "EvaluationContext_calc LeftFirst shared_context ?s ''E1'' =
      Some (Inr (Num 10), ?s')"
    by (simp add: shared_heap_def shared_context_def EvaluationContext_calc_def
        addExpression_def addVariable_def empty_context_def calc_def eval.simps needCalc.simps
        deref_def VariableNode_cache_def mul_def raise_or_def)
  have exprs: "d_expressions shared_context = [Some 3, Some 6]"
    and vmap: "d_variableMap shared_context = [(''a'', Some 0)]"
    and found: "map_of (d_expressionMap shared_context) ''E1'' = Some (Some 3)"
    by (simp_all add: shared_context_def addExpression_def addVariable_def empty_context_def)
  have ev3: "eval LeftFirst ?h (Some 3) = Some (Inr (Num 10))"
    and ev6: "eval LeftFirst ?h (Some 6) = Some (Inr (Num 15))"
    and var0: "variant (?h ! 0) = VariableNode True ''a''"
    by (simp_all add: shared_heap_def eval.simps deref_def mul_def raise_or_def)
  have wf: "wf_heap (heap ?s)" by (simp add: wf_shared_heap)
  have evals: "\<forall>p \<in> set (d_expressions shared_context).
      \<exists>x. eval LeftFirst (heap ?s) p = Some (Inr x)"
    using ev3 ev6 by (simp add: exprs)
  have vars: "\<forall>kv \<in> set (d_variableMap shared_context).
      \<exists>b d nm. snd kv = Some b \<and> b < length (heap ?s) \<and> variant (heap ?s ! b) = VariableNode d nm"
    unfolding vmap using var0 by (auto simp: shared_heap_def)
  have listed: "Some 3 \<in> set (d_expressions shared_context)" by (simp add: exprs)
  have reg: "\<forall>b d nm. reach (heap ?s) 3 b \<longrightarrow> variant (heap ?s ! b) = VariableNode d nm \<longrightarrow>
      Some b \<in> snd ` set (d_variableMap shared_context)"
  proof (intro allI impI)
    fix b d nm
    assume "reach (heap ?s) 3 b" and v: "variant (heap ?s ! b) = VariableNode d nm"
    from reach_length [OF this(1)] have "b < length ?h" by simp
    from shared_heap_variables [OF this] v have "b = 0" by simp
    then show "Some b \<in> snd ` set (d_variableMap shared_context)" by (simp add: vmap)
  qed
  from recalculate_three_steps [OF wf evals vars found listed] obtain s1 h2 v s'
    where 1: "calc_all LeftFirst (d_expressions shared_context) ?s = Some (Inr (), s1)"
      and 2: "\<forall>a. Some a \<in> set (d_expressions shared_context) \<longrightarrow>
                settled LeftFirst (heap ?s) a (d_cachedValue (heap s1 ! a))"
      and 3: "cache_all (d_variableMap shared_context) (heap s1) = Some h2"
      and 4: "\<forall>kv \<in> set (d_variableMap shared_context). needCalc h2 (snd kv) = Some False"
      and 5: "EvaluationContext_calc LeftFirst shared_context ?s ''E1'' = Some (Inr v, s')"
      and 6: "(\<forall>b d nm. reach (heap ?s) 3 b \<longrightarrow> variant (heap ?s ! b) = VariableNode d nm \<longrightarrow>
                 Some b \<in> snd ` set (d_variableMap shared_context)) \<longrightarrow>
              \<not> isnan v \<longrightarrow>
              v = d_cachedValue (h2 ! 3) \<and>
              s' = \<lparr>heap = h2, cout = cout s1 @ [''Using cache'']\<rparr>"
    by blast
  from 5 returns have v: "v = Num 10" and s': "s' = ?s'" by auto
  from 6 reg have "\<not> isnan v \<longrightarrow> v = d_cachedValue (h2 ! 3) \<and>
      s' = \<lparr>heap = h2, cout = cout s1 @ [''Using cache'']\<rparr>"
    by blast
  moreover have "\<not> isnan (Num 10)" by simp
  ultimately have 78: "Num 10 = d_cachedValue (h2 ! 3) \<and>
      ?s' = \<lparr>heap = h2, cout = cout s1 @ [''Using cache'']\<rparr>"
    unfolding v s' by (rule mp)
  from 78 have 7: "d_cachedValue (h2 ! 3) = Num 10" by (rule sym [OF conjunct1])
  from 78 have 8: "?s' = \<lparr>heap = h2, cout = cout s1 @ [''Using cache'']\<rparr>"
    by (rule conjunct2)
  from 2 have 9: "settled LeftFirst ?h 6 (d_cachedValue (heap s1 ! 6))" by (simp add: exprs)
  from 4 have 10: "needCalc h2 (Some 0) = Some False" by (simp add: vmap)
  from 1 9 3 10 7 8 have first: "\<exists>s1 h2.
      calc_all LeftFirst (d_expressions shared_context) ?s = Some (Inr (), s1) \<and>
      settled LeftFirst ?h 6 (d_cachedValue (heap s1 ! 6)) \<and>
      cache_all (d_variableMap shared_context) (heap s1) = Some h2 \<and>
      needCalc h2 (Some 0) = Some False \<and>
      d_cachedValue (h2 ! 3) = Num 10 \<and>
      ?s' = \<lparr>heap = h2, cout = cout s1 @ [''Using cache'']\<rparr>"
    by blast
  let ?c = "addExpression empty_context ''E'' (Some 1)"
  let ?u = "\<lparr>heap = unregistered_heap NaN, cout = []\<rparr>"
  have uexprs: "d_expressions ?c = [Some 1]" and uvmap: "d_variableMap ?c = []"
    and ufound: "map_of (d_expressionMap ?c) ''E'' = Some (Some 1)"
    by (simp_all add: addExpression_def empty_context_def)
  have uwf: "wf_heap (heap ?u)"
    by (auto simp: wf_heap_def unregistered_heap_def less_Suc_eq)
  have ureach: "reach (heap ?u) 1 0"
    by (rule reach.below [where b = 0, OF _ _ reach.here])
      (simp_all add: unregistered_heap_def)
  have "eval LeftFirst (heap ?u) (Some 1) = Some (Inr (Num 5))"
    by (simp add: unregistered_heap_def eval.simps deref_def)
  then have uevals:
    "\<forall>p \<in> set (d_expressions ?c). \<exists>x. eval LeftFirst (heap ?u) p = Some (Inr x)"
    unfolding uexprs by simp
  have uvars: "\<forall>kv \<in> set (d_variableMap ?c).
      \<exists>b d nm. snd kv = Some b \<and> b < length (heap ?u) \<and> variant (heap ?u ! b) = VariableNode d nm"
    unfolding uvmap by simp
  have ulisted: "Some 1 \<in> set (d_expressions ?c)" unfolding uexprs by simp
  have uvar: "variant (heap ?u ! 0) = VariableNode True ''a''"
    by (simp add: unregistered_heap_def)
  have unreg: "Some 0 \<notin> snd ` set (d_variableMap ?c)" unfolding uvmap by simp
  have ureturns: "EvaluationContext_calc LeftFirst ?c ?u ''E'' =
      Some (Inr (Num 5), \<lparr>heap = unregistered_heap (Num 5), cout = []\<rparr>)"
    by (simp add: unregistered_heap_def EvaluationContext_calc_def addExpression_def
        empty_context_def calc_def eval.simps needCalc.simps deref_def)
  from recalculate_three_steps [OF uwf uevals uvars ufound ulisted] obtain t1 g2 w t'
    where u1: "calc_all LeftFirst (d_expressions ?c) ?u = Some (Inr (), t1)"
      and u2: "cache_all (d_variableMap ?c) (heap t1) = Some g2"
      and u3: "EvaluationContext_calc LeftFirst ?c ?u ''E'' = Some (Inr w, t')"
      and u4: "\<forall>b nm. reach (heap ?u) 1 b \<longrightarrow> variant (heap ?u ! b) = VariableNode True nm \<longrightarrow>
              Some b \<notin> snd ` set (d_variableMap ?c) \<longrightarrow>
              eval LeftFirst g2 (Some 1) = Some (Inr w) \<and>
              t' = \<lparr>heap = g2[1 := (g2 ! 1)\<lparr>d_cachedValue := w\<rparr>], cout = cout t1\<rparr> \<and>
              needCalc (heap t') (Some b) = Some True"
    by blast
  from u3 ureturns have w: "w = Num 5" by auto
  from u4 ureach uvar unreg have "eval LeftFirst g2 (Some 1) = Some (Inr w) \<and>
      t' = \<lparr>heap = g2[1 := (g2 ! 1)\<lparr>d_cachedValue := w\<rparr>], cout = cout t1\<rparr> \<and>
      needCalc (heap t') (Some 0) = Some True"
    by blast
  with u1 u2 u3 w have second: "\<exists>s1 h2 s'.
      calc_all LeftFirst (d_expressions ?c) ?u = Some (Inr (), s1) \<and>
      cache_all (d_variableMap ?c) (heap s1) = Some h2 \<and>
      EvaluationContext_calc LeftFirst ?c ?u ''E'' = Some (Inr (Num 5), s') \<and>
      eval LeftFirst h2 (Some 1) = Some (Inr (Num 5)) \<and>
      s' = \<lparr>heap = h2[1 := (h2 ! 1)\<lparr>d_cachedValue := Num 5\<rparr>], cout = cout s1\<rparr> \<and>
      needCalc (heap s') (Some 0) = Some True"
    by blast
  from wf exprs vmap ev3 ev6 var0 found returns first uwf ureach unreg second
  show ?thesis by simp
qed

text \<open>
  C1, as the claim states it, fails when a variable under the target is not in the
  variable map: the second loop does not freeze it, so the last \<^verbatim>\<open>calc()\<close> finds the
  target dirty and recomputes. Here no line \<^verbatim>\<open>Using cache\<close> is written, neither in a
  first recalculation nor in a second one on the state the first has left, for either
  order of evaluation.
\<close>

theorem unregistered_variable_recomputed:
  "EvaluationContext_calc LeftFirst (addExpression empty_context ''E'' (Some 1))
      \<lparr>heap = unregistered_heap NaN, cout = []\<rparr> ''E'' =
     Some (Inr (Num 5), \<lparr>heap = unregistered_heap (Num 5), cout = []\<rparr>) \<and>
   EvaluationContext_calc LeftFirst (addExpression empty_context ''E'' (Some 1))
      \<lparr>heap = unregistered_heap (Num 5), cout = []\<rparr> ''E'' =
     Some (Inr (Num 5), \<lparr>heap = unregistered_heap (Num 5), cout = []\<rparr>) \<and>
   EvaluationContext_calc RightFirst (addExpression empty_context ''E'' (Some 1))
      \<lparr>heap = unregistered_heap NaN, cout = []\<rparr> ''E'' =
     Some (Inr (Num 5), \<lparr>heap = unregistered_heap (Num 5), cout = []\<rparr>) \<and>
   EvaluationContext_calc RightFirst (addExpression empty_context ''E'' (Some 1))
      \<lparr>heap = unregistered_heap (Num 5), cout = []\<rparr> ''E'' =
     Some (Inr (Num 5), \<lparr>heap = unregistered_heap (Num 5), cout = []\<rparr>) \<and>
   needCalc (unregistered_heap (Num 5)) (Some 1) = Some True"
  by (simp add: unregistered_heap_def EvaluationContext_calc_def addExpression_def
      empty_context_def calc_def eval.simps needCalc.simps deref_def)

text \<open>
  C2, as the code has it. \<^verbatim>\<open>calc()\<close> memoizes at the node it is called on: with a
  cached value that is not NaN and \<^verbatim>\<open>needCalc()\<close> false it returns the cached value
  without calling \<^verbatim>\<open>eval()\<close>, so neither the operands nor the function are touched;
  otherwise it stores what \<^verbatim>\<open>eval()\<close> returns, in this node only. \<^verbatim>\<open>eval()\<close> of an
  expression or an operator takes the values of its operands from their \<^verbatim>\<open>eval()\<close>,
  not from their \<^verbatim>\<open>calc()\<close>; a binary operator evaluates both operands, in one order
  or the other, before it calls its function. \<^verbatim>\<open>eval()\<close> of a variable returns its
  stored value, or fails with \<open>NotSet\<close> when that value is NaN, and \<^verbatim>\<open>eval()\<close> of a
  constant returns its stored value: the stored value of an operand that is a variable
  or a constant is read. An operand that has operands of its own is recomputed: its
  cached value is not read, whatever it is. No \<^verbatim>\<open>calc()\<close> writes the cache of a node
  other than its own. A second \<^verbatim>\<open>calc()\<close> on a clean node returns the stored value from
  the cache.
\<close>

theorem calc_memoizes_own_node_only:
  assumes "a < length (heap s)"
  shows "(\<not> isnan (d_cachedValue (heap s ! a)) \<and> needCalc (heap s) (Some a) = Some False \<longrightarrow>
            calc ord s (Some a) =
              Some (Inr (d_cachedValue (heap s ! a)), s\<lparr>cout := cout s @ [''Using cache'']\<rparr>)) \<and>
         (isnan (d_cachedValue (heap s ! a)) \<or> needCalc (heap s) (Some a) = Some True \<longrightarrow>
            calc ord s (Some a) =
              (case eval ord (heap s) (Some a) of
                 None \<Rightarrow> None
               | Some (Inl e) \<Rightarrow> Some (Inl e, s)
               | Some (Inr v) \<Rightarrow>
                   Some (Inr v, s\<lparr>heap := (heap s)[a := (heap s ! a)\<lparr>d_cachedValue := v\<rparr>]\<rparr>))) \<and>
         (\<forall>e nm. variant (heap s ! a) = ExpressionNode e nm \<longrightarrow>
            eval ord (heap s) (Some a) = eval ord (heap s) e) \<and>
         (\<forall>q f. variant (heap s ! a) = UnaryOperatorNode q f \<longrightarrow>
            eval ord (heap s) (Some a) =
              (case eval ord (heap s) q of None \<Rightarrow> None | Some (Inl e) \<Rightarrow> Some (Inl e)
               | Some (Inr x) \<Rightarrow> raise_or (f x))) \<and>
         (\<forall>l r f. variant (heap s ! a) = BinaryOperatorNode l r f \<longrightarrow>
            eval LeftFirst (heap s) (Some a) =
              (case eval LeftFirst (heap s) l of None \<Rightarrow> None | Some (Inl e) \<Rightarrow> Some (Inl e)
               | Some (Inr x) \<Rightarrow>
                  (case eval LeftFirst (heap s) r of None \<Rightarrow> None | Some (Inl e) \<Rightarrow> Some (Inl e)
                   | Some (Inr y) \<Rightarrow> raise_or (f x y))) \<and>
            eval RightFirst (heap s) (Some a) =
              (case eval RightFirst (heap s) r of None \<Rightarrow> None | Some (Inl e) \<Rightarrow> Some (Inl e)
               | Some (Inr y) \<Rightarrow>
                  (case eval RightFirst (heap s) l of None \<Rightarrow> None | Some (Inl e) \<Rightarrow> Some (Inl e)
                   | Some (Inr x) \<Rightarrow> raise_or (f x y)))) \<and>
         (\<forall>d nm. variant (heap s ! a) = VariableNode d nm \<longrightarrow>
            eval ord (heap s) (Some a) =
              (if isnan (d_cachedValue (heap s ! a)) then Some (Inl NotSet)
               else Some (Inr (d_cachedValue (heap s ! a))))) \<and>
         (variant (heap s ! a) = ConstantNode \<longrightarrow>
            eval ord (heap s) (Some a) = Some (Inr (d_cachedValue (heap s ! a)))) \<and>
         (\<forall>r s' b. calc ord s (Some a) = Some (r, s') \<longrightarrow> b \<noteq> a \<longrightarrow> heap s' ! b = heap s ! b) \<and>
         (\<forall>b w q. b < length (heap s) \<longrightarrow> operands (variant (heap s ! b)) \<noteq> [] \<longrightarrow>
            eval ord ((heap s)[b := (heap s ! b)\<lparr>d_cachedValue := w\<rparr>]) q = eval ord (heap s) q) \<and>
         (\<forall>v s1. calc ord s (Some a) = Some (Inr v, s1) \<longrightarrow> \<not> isnan v \<longrightarrow>
            needCalc (heap s) (Some a) = Some False \<longrightarrow>
            calc ord s1 (Some a) = Some (Inr v, s1\<lparr>cout := cout s1 @ [''Using cache'']\<rparr>))"
proof -
  have again: "calc ord s1 (Some a) = Some (Inr v, s1\<lparr>cout := cout s1 @ [''Using cache'']\<rparr>)"
    if c: "calc ord s (Some a) = Some (Inr v, s1)" and v: "\<not> isnan v"
      and n: "needCalc (heap s) (Some a) = Some False" for v s1
  proof -
    have "a < length (heap s1)" using calc_length [OF c] assms by simp
    moreover have "d_cachedValue (heap s1 ! a) = v" by (rule calc_stores_result [OF c])
    moreover have "needCalc (heap s1) (Some a) = Some False" using calc_needCalc [OF c] n by simp
    ultimately show ?thesis using v calc_fresh [of a s1] by simp
  qed
  have unread: "eval ord ((heap s)[b := (heap s ! b)\<lparr>d_cachedValue := w\<rparr>]) q = eval ord (heap s) q"
    if "b < length (heap s)" "operands (variant (heap s ! b)) \<noteq> []" for b w q
    by (rule eval_view_cong) (use that in \<open>simp add: update_cache_view\<close>)
  show ?thesis
  proof (intro conjI allI impI)
    assume "\<not> isnan (d_cachedValue (heap s ! a)) \<and> needCalc (heap s) (Some a) = Some False"
    then show "calc ord s (Some a) =
        Some (Inr (d_cachedValue (heap s ! a)), s\<lparr>cout := cout s @ [''Using cache'']\<rparr>)"
      using calc_fresh [OF assms] by blast
  next
    assume "isnan (d_cachedValue (heap s ! a)) \<or> needCalc (heap s) (Some a) = Some True"
    then show "calc ord s (Some a) =
        (case eval ord (heap s) (Some a) of
           None \<Rightarrow> None
         | Some (Inl e) \<Rightarrow> Some (Inl e, s)
         | Some (Inr v) \<Rightarrow>
             Some (Inr v, s\<lparr>heap := (heap s)[a := (heap s ! a)\<lparr>d_cachedValue := v\<rparr>]\<rparr>))"
      by (rule calc_stale [OF assms])
  next
    fix e nm assume "variant (heap s ! a) = ExpressionNode e nm"
    then show "eval ord (heap s) (Some a) = eval ord (heap s) e"
      by (rule eval_ExpressionNode [OF assms])
  next
    fix q f assume "variant (heap s ! a) = UnaryOperatorNode q f"
    then show "eval ord (heap s) (Some a) =
        (case eval ord (heap s) q of None \<Rightarrow> None | Some (Inl e) \<Rightarrow> Some (Inl e)
         | Some (Inr x) \<Rightarrow> raise_or (f x))"
      by (rule eval_UnaryOperatorNode [OF assms])
  next
    fix l r f assume "variant (heap s ! a) = BinaryOperatorNode l r f"
    then show "eval LeftFirst (heap s) (Some a) =
        (case eval LeftFirst (heap s) l of None \<Rightarrow> None | Some (Inl e) \<Rightarrow> Some (Inl e)
         | Some (Inr x) \<Rightarrow>
            (case eval LeftFirst (heap s) r of None \<Rightarrow> None | Some (Inl e) \<Rightarrow> Some (Inl e)
             | Some (Inr y) \<Rightarrow> raise_or (f x y)))"
      by (rule eval_BinaryOperatorNode_LeftFirst [OF assms])
  next
    fix l r f assume "variant (heap s ! a) = BinaryOperatorNode l r f"
    then show "eval RightFirst (heap s) (Some a) =
        (case eval RightFirst (heap s) r of None \<Rightarrow> None | Some (Inl e) \<Rightarrow> Some (Inl e)
         | Some (Inr y) \<Rightarrow>
            (case eval RightFirst (heap s) l of None \<Rightarrow> None | Some (Inl e) \<Rightarrow> Some (Inl e)
             | Some (Inr x) \<Rightarrow> raise_or (f x y)))"
      by (rule eval_BinaryOperatorNode_RightFirst [OF assms])
  next
    fix d nm assume "variant (heap s ! a) = VariableNode d nm"
    then show "eval ord (heap s) (Some a) =
        (if isnan (d_cachedValue (heap s ! a)) then Some (Inl NotSet)
         else Some (Inr (d_cachedValue (heap s ! a))))"
      by (rule eval_VariableNode [OF assms])
  next
    assume "variant (heap s ! a) = ConstantNode"
    then show "eval ord (heap s) (Some a) = Some (Inr (d_cachedValue (heap s ! a)))"
      by (rule eval_ConstantNode [OF assms])
  next
    fix r s' b assume "calc ord s (Some a) = Some (r, s')" "b \<noteq> a"
    then show "heap s' ! b = heap s ! b" by (rule calc_other_nodes)
  next
    fix b w q assume "b < length (heap s)" "operands (variant (heap s ! b)) \<noteq> []"
    then show "eval ord ((heap s)[b := (heap s ! b)\<lparr>d_cachedValue := w\<rparr>]) q = eval ord (heap s) q"
      by (rule unread)
  next
    fix v s1 assume "calc ord s (Some a) = Some (Inr v, s1)" "\<not> isnan v"
      "needCalc (heap s) (Some a) = Some False"
    then show "calc ord s1 (Some a) = Some (Inr v, s1\<lparr>cout := cout s1 @ [''Using cache'']\<rparr>)"
      by (rule again)
  qed
qed

theorem calc_memoizes_own_node_only_witness:
  "(1::nat) < length (chain_heap (Num 7) False (Num (- 5)) NaN) \<and>
   \<not> isnan (d_cachedValue (chain_heap (Num 7) False (Num (- 5)) NaN ! 1)) \<and>
   needCalc (chain_heap (Num 7) False (Num (- 5)) NaN) (Some 1) = Some False \<and>
   calc LeftFirst \<lparr>heap = chain_heap (Num 7) False (Num (- 5)) NaN, cout = []\<rparr> (Some 1) =
     Some (Inr (Num (- 5)),
           \<lparr>heap = chain_heap (Num 7) False (Num (- 5)) NaN, cout = [''Using cache'']\<rparr>) \<and>
   (2::nat) < length (chain_heap (Num 7) False (Num (- 5)) NaN) \<and>
   isnan (d_cachedValue (chain_heap (Num 7) False (Num (- 5)) NaN ! 2)) \<and>
   eval LeftFirst (chain_heap (Num 7) False (Num (- 5)) NaN) (Some 2) = Some (Inr (Num 7)) \<and>
   calc LeftFirst \<lparr>heap = chain_heap (Num 7) False (Num (- 5)) NaN, cout = []\<rparr> (Some 2) =
     Some (Inr (Num 7),
           \<lparr>heap = chain_heap (Num 7) False (Num (- 5)) (Num 7), cout = []\<rparr>) \<and>
   calc LeftFirst \<lparr>heap = chain_heap (Num 7) False (Num (- 5)) (Num 7), cout = []\<rparr> (Some 2) =
     Some (Inr (Num 7),
           \<lparr>heap = chain_heap (Num 7) False (Num (- 5)) (Num 7), cout = [''Using cache'']\<rparr>) \<and>
   (0::nat) < length (chain_heap (Num 7) False (Num (- 5)) NaN) \<and>
   variant (chain_heap (Num 7) False (Num (- 5)) NaN ! 0) = VariableNode False ''a'' \<and>
   eval LeftFirst (chain_heap (Num 7) False (Num (- 5)) NaN) (Some 0) = Some (Inr (Num 7)) \<and>
   variant (chain_heap (Num 7) False (Num (- 5)) NaN ! 1) = UnaryOperatorNode (Some 0) neg \<and>
   eval LeftFirst (chain_heap (Num 7) False (Num (- 5)) NaN) (Some 1) = Some (Inr (Num (- 7)))"
proof -
  let ?h = "chain_heap (Num 7) False (Num (- 5)) NaN"
  let ?s = "\<lparr>heap = ?h, cout = []\<rparr>"
  have len: "1 < length (heap ?s)" "2 < length (heap ?s)" "0 < length (heap ?s)"
    by (simp_all add: chain_heap_def)
  have c1: "\<not> isnan (d_cachedValue (?h ! 1))" and c2: "isnan (d_cachedValue (?h ! 2))"
    by (simp_all add: chain_heap_def)
  have v1: "d_cachedValue (?h ! 1) = Num (- 5)"
    by (simp add: chain_heap_def)
  have n1: "needCalc ?h (Some 1) = Some False" and n2: "needCalc ?h (Some 2) = Some False"
    by (simp_all add: chain_heap_def needCalc.simps deref_def)
  have e2: "eval LeftFirst ?h (Some 2) = Some (Inr (Num 7))"
    by (simp add: chain_heap_def eval.simps deref_def neg_def raise_or_def)
  have upd: "?h[2 := (?h ! 2)\<lparr>d_cachedValue := Num 7\<rparr>] =
      chain_heap (Num 7) False (Num (- 5)) (Num 7)"
    by (simp add: chain_heap_def)
  have var0: "variant (?h ! 0) = VariableNode False ''a''"
    and val0: "d_cachedValue (?h ! 0) = Num 7"
    and var1: "variant (?h ! 1) = UnaryOperatorNode (Some 0) neg"
    by (simp_all add: chain_heap_def)
  have hvar0: "variant (heap ?s ! 0) = VariableNode False ''a''"
    and hvar1: "variant (heap ?s ! 1) = UnaryOperatorNode (Some 0) neg"
    using var0 var1 by simp_all
  note inst0 = calc_memoizes_own_node_only [OF len(3), of LeftFirst]
  note inst1 = calc_memoizes_own_node_only [OF len(1), of LeftFirst]
  note inst2 = calc_memoizes_own_node_only [OF len(2), of LeftFirst]
  have k1: "calc LeftFirst ?s (Some 1) =
      Some (Inr (Num (- 5)), \<lparr>heap = ?h, cout = [''Using cache'']\<rparr>)"
    using inst1 [THEN conjunct1] c1 n1 v1 by simp
  have k2: "calc LeftFirst ?s (Some 2) =
      Some (Inr (Num 7), \<lparr>heap = chain_heap (Num 7) False (Num (- 5)) (Num 7), cout = []\<rparr>)"
    using inst2 [THEN conjunct2, THEN conjunct1] c2 e2 upd by simp
  have k3: "calc LeftFirst \<lparr>heap = chain_heap (Num 7) False (Num (- 5)) (Num 7), cout = []\<rparr>
        (Some 2) =
      Some (Inr (Num 7),
            \<lparr>heap = chain_heap (Num 7) False (Num (- 5)) (Num 7), cout = [''Using cache'']\<rparr>)"
    using inst2 k2 n2 by simp
  have k4: "eval LeftFirst ?h (Some 0) = Some (Inr (Num 7))"
    using inst0 [THEN conjunct2, THEN conjunct2, THEN conjunct2, THEN conjunct2, THEN conjunct2,
        THEN conjunct1, rule_format, OF hvar0] val0
    by simp
  have "eval LeftFirst ?h (Some 1) =
      (case eval LeftFirst ?h (Some 0) of None \<Rightarrow> None | Some (Inl e) \<Rightarrow> Some (Inl e)
       | Some (Inr x) \<Rightarrow> raise_or (neg x))"
    using inst1 [THEN conjunct2, THEN conjunct2, THEN conjunct2, THEN conjunct1, rule_format,
        OF hvar1]
    by simp
  with k4 have k5: "eval LeftFirst ?h (Some 1) = Some (Inr (Num (- 7)))"
    by (simp add: neg_def raise_or_def)
  show ?thesis
    using len c1 c2 n1 e2 k1 k2 k3 var0 k4 var1 k5 by simp
qed

text \<open>
  C2, as the claim states it, fails: the operands are not reached through \<^verbatim>\<open>calc()\<close>.
  In the chain, \<^verbatim>\<open>a\<close> is set to 5 and node 1 is evaluated, which caches \<open>-5\<close>; then \<^verbatim>\<open>a\<close>
  is set to 7 and frozen. Now \<^verbatim>\<open>calc()\<close> on node 1 returns its cached \<open>-5\<close>, but
  \<^verbatim>\<open>calc()\<close> on node 2 returns 7, the negation of \<open>-7\<close>: it has recomputed node 1 past
  its clean cache, and has left that cache as it was.
\<close>

theorem stale_operand_bypassed:
  "VariableNode_set (chain_heap NaN True NaN NaN) (Some 0) (Num 5) =
     Some (chain_heap (Num 5) True NaN NaN) \<and>
   calc LeftFirst \<lparr>heap = chain_heap (Num 5) True NaN NaN, cout = []\<rparr> (Some 1) =
     Some (Inr (Num (- 5)), \<lparr>heap = chain_heap (Num 5) True (Num (- 5)) NaN, cout = []\<rparr>) \<and>
   VariableNode_set (chain_heap (Num 5) True (Num (- 5)) NaN) (Some 0) (Num 7) =
     Some (chain_heap (Num 7) True (Num (- 5)) NaN) \<and>
   VariableNode_cache (chain_heap (Num 7) True (Num (- 5)) NaN) (Some 0) =
     Some (chain_heap (Num 7) False (Num (- 5)) NaN) \<and>
   calc LeftFirst \<lparr>heap = chain_heap (Num 7) False (Num (- 5)) NaN, cout = []\<rparr> (Some 1) =
     Some (Inr (Num (- 5)),
           \<lparr>heap = chain_heap (Num 7) False (Num (- 5)) NaN, cout = [''Using cache'']\<rparr>) \<and>
   calc LeftFirst \<lparr>heap = chain_heap (Num 7) False (Num (- 5)) NaN, cout = []\<rparr> (Some 2) =
     Some (Inr (Num 7),
           \<lparr>heap = chain_heap (Num 7) False (Num (- 5)) (Num 7), cout = []\<rparr>) \<and>
   calc RightFirst \<lparr>heap = chain_heap (Num 7) False (Num (- 5)) NaN, cout = []\<rparr> (Some 2) =
     Some (Inr (Num 7),
           \<lparr>heap = chain_heap (Num 7) False (Num (- 5)) (Num 7), cout = []\<rparr>)"
  by (simp add: chain_heap_def VariableNode_set_def VariableNode_cache_def calc_def eval.simps
      needCalc.simps deref_def neg_def raise_or_def)

text \<open>
  C3, as the code has it. Reading a variable fails with \<open>NotSet\<close> exactly when its cached
  value is NaN: a variable that was just made, and also one that was set to NaN. After
  \<^verbatim>\<open>set(v)\<close> with a \<open>v\<close> that is not NaN, both \<^verbatim>\<open>eval()\<close> and \<^verbatim>\<open>calc()\<close> return \<open>v\<close>.
\<close>

theorem variable_NotSet_iff_nan:
  "eval ord (snd (make_VariableNode nm0 h0)) (fst (make_VariableNode nm0 h0)) = Some (Inl NotSet) \<and>
   (a < length h \<and> variant (h ! a) = VariableNode d nm \<longrightarrow>
     (eval ord h (Some a) = Some (Inl NotSet) \<longleftrightarrow> isnan (d_cachedValue (h ! a))) \<and>
     (\<not> isnan (d_cachedValue (h ! a)) \<longrightarrow>
        eval ord h (Some a) = Some (Inr (d_cachedValue (h ! a)))) \<and>
     map_option fst (calc ord \<lparr>heap = h, cout = out\<rparr> (Some a)) = eval ord h (Some a) \<and>
     (\<exists>h'. VariableNode_set h (Some a) v = Some h' \<and>
           d_cachedValue (h' ! a) = v \<and>
           (\<not> isnan v \<longrightarrow>
              eval ord h' (Some a) = Some (Inr v) \<and>
              map_option fst (calc ord \<lparr>heap = h', cout = out\<rparr> (Some a)) = Some (Inr v))))"
  by (auto simp: eval_VariableNode VariableNode_set_def calc_def needCalc_VariableNode
      make_VariableNode_def alloc_def)

theorem variable_NotSet_iff_nan_witness:
  "(0::nat) < length (one_variable NaN True) \<and>
   variant (one_variable NaN True ! 0) = VariableNode True ''x'' \<and>
   eval LeftFirst (one_variable NaN True) (Some 0) = Some (Inl NotSet) \<and>
   VariableNode_set (one_variable NaN True) (Some 0) (Num 7) = Some (one_variable (Num 7) True) \<and>
   \<not> isnan (Num 7) \<and>
   eval LeftFirst (one_variable (Num 7) True) (Some 0) = Some (Inr (Num 7))"
  using variable_NotSet_iff_nan [where ord = LeftFirst and nm0 = "''x''" and ?h0.0 = "[]"
      and a = 0 and h = "one_variable NaN True" and d = True and nm = "''x''" and out = "[]"
      and v = "Num 7"]
  by (simp add: one_variable_def VariableNode_set_def)

text \<open>
  C3, as the claim states it, fails: the cached double is its own marker for "unset".
  \<^verbatim>\<open>set(NaN)\<close> on a new variable succeeds and leaves it as it was, and the variable
  still fails with \<open>NotSet\<close>.
\<close>

theorem set_nan_reads_unset:
  "make_VariableNode ''x'' [] = (Some 0, one_variable NaN True) \<and>
   VariableNode_set (one_variable NaN True) (Some 0) NaN = Some (one_variable NaN True) \<and>
   eval LeftFirst (one_variable NaN True) (Some 0) = Some (Inl NotSet) \<and>
   calc LeftFirst \<lparr>heap = one_variable NaN True, cout = []\<rparr> (Some 0) =
     Some (Inl NotSet, \<lparr>heap = one_variable NaN True, cout = []\<rparr>) \<and>
   eval RightFirst (one_variable NaN True) (Some 0) = Some (Inl NotSet) \<and>
   calc RightFirst \<lparr>heap = one_variable NaN True, cout = []\<rparr> (Some 0) =
     Some (Inl NotSet, \<lparr>heap = one_variable NaN True, cout = []\<rparr>)"
  by (simp add: make_VariableNode_def alloc_def one_variable_def VariableNode_set_def calc_def
      eval_VariableNode)




text \<open>
  C5. \<^verbatim>\<open>needCalc()\<close> is a function of the heap and returns no heap. For a constant it is
  false, and \<^verbatim>\<open>calc()\<close> on a constant returns the value it was made with and leaves the
  heap as it is. For a binary operator it is the disjunction of the answers of the two
  operands, for a unary operator and for an expression the answer of the operand.
  It reads no cached value, and in a graph built by the constructors it is true
  exactly when some variable in the operand subgraph has its flag set: the answer is
  derived from the variables at each call.
\<close>

theorem needCalc_by_variant:
  "calc ord \<lparr>heap = snd (make_ConstantNode v h0), cout = out\<rparr> (fst (make_ConstantNode v h0)) =
     Some (Inr v, \<lparr>heap = snd (make_ConstantNode v h0),
                   cout = (if isnan v then out else out @ [''Using cache''])\<rparr>) \<and>
   (a < length h \<longrightarrow>
     (variant (h ! a) = ConstantNode \<longrightarrow>
        needCalc h (Some a) = Some False \<and>
        calc ord \<lparr>heap = h, cout = out\<rparr> (Some a) =
          Some (Inr (d_cachedValue (h ! a)),
                \<lparr>heap = h, cout = (if isnan (d_cachedValue (h ! a)) then out
                                   else out @ [''Using cache''])\<rparr>)) \<and>
     (\<forall>l r f bl br. variant (h ! a) = BinaryOperatorNode l r f \<longrightarrow>
        needCalc h l = Some bl \<longrightarrow> needCalc h r = Some br \<longrightarrow>
        needCalc h (Some a) = Some (bl \<or> br)) \<and>
     (\<forall>q f. variant (h ! a) = UnaryOperatorNode q f \<longrightarrow>
        needCalc h (Some a) = needCalc h q) \<and>
     (\<forall>e nm. variant (h ! a) = ExpressionNode e nm \<longrightarrow>
        needCalc h (Some a) = needCalc h e) \<and>
     (\<forall>b w p. needCalc (h[b := (h ! b)\<lparr>d_cachedValue := w\<rparr>]) p = needCalc h p) \<and>
     (wf_heap h \<longrightarrow>
        needCalc h (Some a) =
          Some (\<exists>b nm. reach h a b \<and> variant (h ! b) = VariableNode True nm)))"
proof -
  have derived: "needCalc h (Some a) =
      Some (\<exists>b nm. reach h a b \<and> variant (h ! b) = VariableNode True nm)"
    if "a < length h" "wf_heap h"
  proof (cases "\<exists>b nm. reach h a b \<and> variant (h ! b) = VariableNode True nm")
    case True
    with needCalc_dirty_below [OF that(2)] show ?thesis by auto
  next
    case False
    with needCalc_clean_below [OF that(2,1)] show ?thesis by auto
  qed
  show ?thesis
    by (auto simp: needCalc_ConstantNode needCalc_BinaryOperatorNode needCalc_UnaryOperatorNode
        needCalc_ExpressionNode calc_ConstantNode make_ConstantNode_def alloc_def
        needCalc_ignores_cache derived)
qed

theorem needCalc_by_variant_witness:
  "(1::nat) < length sample_heap \<and> variant (sample_heap ! 1) = ConstantNode \<and>
   needCalc sample_heap (Some 1) = Some False \<and>
   calc LeftFirst \<lparr>heap = sample_heap, cout = []\<rparr> (Some 1) =
     Some (Inr (Num 2), \<lparr>heap = sample_heap, cout = [''Using cache'']\<rparr>) \<and>
   (2::nat) < length sample_heap \<and>
   variant (sample_heap ! 2) = BinaryOperatorNode (Some 0) (Some 1) add \<and>
   needCalc sample_heap (Some 0) = Some True \<and>
   needCalc sample_heap (Some 2) = Some (True \<or> False) \<and>
   (3::nat) < length sample_heap \<and>
   variant (sample_heap ! 3) = UnaryOperatorNode (Some 2) neg \<and>
   needCalc sample_heap (Some 3) = needCalc sample_heap (Some 2) \<and>
   (4::nat) < length sample_heap \<and>
   variant (sample_heap ! 4) = ExpressionNode (Some 3) ''E'' \<and>
   needCalc sample_heap (Some 4) = needCalc sample_heap (Some 3) \<and>
   wf_heap sample_heap \<and> reach sample_heap 4 0 \<and>
   variant (sample_heap ! 0) = VariableNode True ''x'' \<and>
   needCalc sample_heap (Some 4) = Some True"
proof -
  have len: "1 < length sample_heap" "2 < length sample_heap" "3 < length sample_heap"
    "4 < length sample_heap"
    by (simp_all add: sample_heap_def)
  have v1: "variant (sample_heap ! 1) = ConstantNode"
    and v2: "variant (sample_heap ! 2) = BinaryOperatorNode (Some 0) (Some 1) add"
    and v3: "variant (sample_heap ! 3) = UnaryOperatorNode (Some 2) neg"
    and v4: "variant (sample_heap ! 4) = ExpressionNode (Some 3) ''E''"
    by (simp_all add: sample_heap_def)
  have n0: "needCalc sample_heap (Some 0) = Some True"
    by (simp add: sample_heap_def needCalc_VariableNode)
  have c1: "d_cachedValue (sample_heap ! 1) = Num 2"
    by (simp add: sample_heap_def)
  have n1: "needCalc sample_heap (Some 1) = Some False"
    and k1: "calc LeftFirst \<lparr>heap = sample_heap, cout = []\<rparr> (Some 1) =
      Some (Inr (Num 2), \<lparr>heap = sample_heap, cout = [''Using cache'']\<rparr>)"
    using needCalc_by_variant [of LeftFirst "Num 2" "[]" "[]" 1 sample_heap] len(1) v1 c1 by simp_all
  have n2: "needCalc sample_heap (Some 2) = Some (True \<or> False)"
    using needCalc_by_variant [of LeftFirst "Num 2" "[]" "[]" 2 sample_heap] len(2) v2 n0 n1 by blast
  have n3: "needCalc sample_heap (Some 3) = needCalc sample_heap (Some 2)"
    using needCalc_by_variant [of LeftFirst "Num 2" "[]" "[]" 3 sample_heap] len(3) v3 by blast
  have n4: "needCalc sample_heap (Some 4) = needCalc sample_heap (Some 3)"
    using needCalc_by_variant [of LeftFirst "Num 2" "[]" "[]" 4 sample_heap] len(4) v4 by blast
  have v0: "variant (sample_heap ! 0) = VariableNode True ''x''"
    by (simp add: sample_heap_def)
  have "needCalc sample_heap (Some 4) =
      Some (\<exists>b nm. reach sample_heap 4 b \<and> variant (sample_heap ! b) = VariableNode True nm)"
    using needCalc_by_variant [of LeftFirst "Num 2" "[]" "[]" 4 sample_heap] len(4) wf_sample_heap by blast
  moreover have "\<exists>b nm. reach sample_heap 4 b \<and> variant (sample_heap ! b) = VariableNode True nm"
    using reach_sample_heap v0 by blast
  ultimately have d4: "needCalc sample_heap (Some 4) = Some True" by simp
  show ?thesis
    using len v1 v2 v3 v4 n0 n1 k1 n2 n3 n4 wf_sample_heap reach_sample_heap v0 d4 by blast
qed

text \<open>
  C6, as the code has it. After \<^verbatim>\<open>set(v)\<close> the variable is dirty. It is still dirty
  after any \<^verbatim>\<open>calc()\<close>, after any further \<^verbatim>\<open>set\<close>, after \<^verbatim>\<open>cache()\<close> on another
  node and after any allocation. \<^verbatim>\<open>cache()\<close> on the variable changes its flag and
  nothing else: the stored value is still \<open>v\<close> and \<^verbatim>\<open>eval()\<close> has the same outcome as
  before. When \<open>v\<close> is not NaN, that outcome is \<open>v\<close>, and \<^verbatim>\<open>calc()\<close> returns it from the
  cache.
\<close>

theorem set_dirty_until_cache:
  assumes "a < length h" and "variant (h ! a) = VariableNode d nm"
  shows "\<exists>h1. VariableNode_set h (Some a) v = Some h1 \<and>
           needCalc h1 (Some a) = Some True \<and>
           (\<forall>out p r s'. calc ord \<lparr>heap = h1, cout = out\<rparr> p = Some (r, s') \<longrightarrow>
              needCalc (heap s') (Some a) = Some True) \<and>
           (\<forall>q w h1'. VariableNode_set h1 q w = Some h1' \<longrightarrow>
              needCalc h1' (Some a) = Some True) \<and>
           (\<forall>q h1'. q \<noteq> Some a \<longrightarrow> VariableNode_cache h1 q = Some h1' \<longrightarrow>
              needCalc h1' (Some a) = Some True) \<and>
           (\<forall>n. needCalc (snd (alloc h1 n)) (Some a) = Some True) \<and>
           (\<exists>h2. VariableNode_cache h1 (Some a) = Some h2 \<and>
              h2 = h1[a := (h1 ! a)\<lparr>variant := VariableNode False nm\<rparr>] \<and>
              needCalc h2 (Some a) = Some False \<and>
              d_cachedValue (h2 ! a) = v \<and>
              eval ord h2 (Some a) = eval ord h1 (Some a) \<and>
              (\<not> isnan v \<longrightarrow>
                 eval ord h2 (Some a) = Some (Inr v) \<and>
                 calc ord \<lparr>heap = h2, cout = out2\<rparr> (Some a) =
                   Some (Inr v, \<lparr>heap = h2, cout = out2 @ [''Using cache'']\<rparr>)))"
proof -
  define h1 where "h1 = h[a := \<lparr>d_cachedValue = v, variant = VariableNode True nm\<rparr>]"
  define h2 where "h2 = h1[a := (h1 ! a)\<lparr>variant := VariableNode False nm\<rparr>]"
  have set1: "VariableNode_set h (Some a) v = Some h1"
    using assms by (simp add: VariableNode_set_def h1_def)
  have len1: "a < length h1" and var1: "variant (h1 ! a) = VariableNode True nm"
    and val1: "d_cachedValue (h1 ! a) = v"
    using assms by (simp_all add: h1_def)
  have dirty1: "needCalc h1 (Some a) = Some True"
    using len1 var1 by (simp add: needCalc_VariableNode)
  have after_calc: "needCalc (heap s') (Some a) = Some True"
    if "calc ord \<lparr>heap = h1, cout = out\<rparr> p = Some (r, s')" for out p r s'
  proof -
    have "length (heap s') = length h1" "variant (heap s' ! a) = variant (h1 ! a)"
      using calc_length [OF that] calc_variant_nth [OF that] len1 by simp_all
    then show ?thesis using len1 var1 by (simp add: needCalc_VariableNode)
  qed
  have after_set: "needCalc h1' (Some a) = Some True"
    if "VariableNode_set h1 q w = Some h1'" for q w h1'
    using that len1 var1
    by (auto simp: VariableNode_set_def nth_list_update intro!: needCalc_dirty
        split: option.splits if_splits variant.splits)
  have after_other_cache: "needCalc h1' (Some a) = Some True"
    if "q \<noteq> Some a" "VariableNode_cache h1 q = Some h1'" for q h1'
    using that len1 var1
    by (auto simp: VariableNode_cache_def nth_list_update intro!: needCalc_dirty
        split: option.splits if_splits variant.splits)
  have after_alloc: "needCalc (snd (alloc h1 n)) (Some a) = Some True" for n
    using len1 var1 by (simp add: alloc_def needCalc_VariableNode nth_append)
  have cache2: "VariableNode_cache h1 (Some a) = Some h2"
    using len1 var1 by (simp add: VariableNode_cache_def h2_def)
  have len2: "a < length h2" and var2: "variant (h2 ! a) = VariableNode False nm"
    and val2: "d_cachedValue (h2 ! a) = v"
    using len1 val1 by (simp_all add: h2_def)
  have clean2: "needCalc h2 (Some a) = Some False"
    using len2 var2 by (simp add: needCalc_VariableNode)
  have same_eval: "eval ord h2 (Some a) = eval ord h1 (Some a)"
    using eval_VariableNode [OF len1 var1] eval_VariableNode [OF len2 var2] val1 val2 by simp
  have ret: "eval ord h2 (Some a) = Some (Inr v)"
    "calc ord \<lparr>heap = h2, cout = out2\<rparr> (Some a) =
       Some (Inr v, \<lparr>heap = h2, cout = out2 @ [''Using cache'']\<rparr>)"
    if "\<not> isnan v"
    using that len2 val2 clean2 eval_VariableNode [OF len2 var2] by (simp_all add: calc_def)
  show ?thesis
    using set1 dirty1 after_calc after_set after_other_cache after_alloc cache2 clean2
      val2 same_eval ret h2_def
    by blast
qed

theorem set_dirty_until_cache_witness:
  "(0::nat) < length (one_variable NaN True) \<and>
   variant (one_variable NaN True ! 0) = VariableNode True ''x'' \<and>
   VariableNode_set (one_variable NaN True) (Some 0) (Num 7) = Some (one_variable (Num 7) True) \<and>
   needCalc (one_variable (Num 7) True) (Some 0) = Some True \<and>
   VariableNode_cache (one_variable (Num 7) True) (Some 0) = Some (one_variable (Num 7) False) \<and>
   needCalc (one_variable (Num 7) False) (Some 0) = Some False \<and>
   \<not> isnan (Num 7) \<and>
   calc LeftFirst \<lparr>heap = one_variable (Num 7) False, cout = []\<rparr> (Some 0) =
     Some (Inr (Num 7), \<lparr>heap = one_variable (Num 7) False, cout = [''Using cache'']\<rparr>) \<and>
   calc LeftFirst \<lparr>heap = one_variable (Num 7) True, cout = []\<rparr> (Some 0) =
     Some (Inr (Num 7), \<lparr>heap = one_variable (Num 7) True, cout = []\<rparr>) \<and>
   VariableNode_set (one_variable (Num 7) True) (Some 0) (Num 8) =
     Some (one_variable (Num 8) True) \<and>
   needCalc (one_variable (Num 8) True) (Some 0) = Some True"
proof -
  have calc1: "calc LeftFirst \<lparr>heap = one_variable (Num 7) True, cout = []\<rparr> (Some 0) =
     Some (Inr (Num 7), \<lparr>heap = one_variable (Num 7) True, cout = []\<rparr>)"
    by (simp add: one_variable_def calc_def eval.simps needCalc.simps deref_def)
  have set2: "VariableNode_set (one_variable (Num 7) True) (Some 0) (Num 8) =
     Some (one_variable (Num 8) True)"
    by (simp add: one_variable_def VariableNode_set_def)
  from set_dirty_until_cache [of 0 "one_variable NaN True" True "''x''" "Num 7" LeftFirst "[]"]
  have main: "(0::nat) < length (one_variable NaN True) \<and>
   variant (one_variable NaN True ! 0) = VariableNode True ''x'' \<and>
   VariableNode_set (one_variable NaN True) (Some 0) (Num 7) = Some (one_variable (Num 7) True) \<and>
   needCalc (one_variable (Num 7) True) (Some 0) = Some True \<and>
   VariableNode_cache (one_variable (Num 7) True) (Some 0) = Some (one_variable (Num 7) False) \<and>
   needCalc (one_variable (Num 7) False) (Some 0) = Some False \<and>
   \<not> isnan (Num 7) \<and>
   calc LeftFirst \<lparr>heap = one_variable (Num 7) False, cout = []\<rparr> (Some 0) =
     Some (Inr (Num 7), \<lparr>heap = one_variable (Num 7) False, cout = [''Using cache'']\<rparr>) \<and>
   (\<forall>q w h1'. VariableNode_set (one_variable (Num 7) True) q w = Some h1' \<longrightarrow>
      needCalc h1' (Some 0) = Some True)"
    by (auto simp add: one_variable_def VariableNode_set_def VariableNode_cache_def)
  with set2 have "needCalc (one_variable (Num 8) True) (Some 0) = Some True" by blast
  with main calc1 set2 show ?thesis by blast
qed

text \<open>
  C6, as the claim states it, fails for the value NaN: a variable that held 1 and was
  clean is set to NaN and frozen; \<^verbatim>\<open>calc()\<close> then raises \<open>NotSet\<close> instead of returning
  the value that was set.
\<close>

theorem freeze_nan_not_returned:
  "VariableNode_set (one_variable (Num 1) False) (Some 0) NaN = Some (one_variable NaN True) \<and>
   VariableNode_cache (one_variable NaN True) (Some 0) = Some (one_variable NaN False) \<and>
   calc LeftFirst \<lparr>heap = one_variable NaN False, cout = []\<rparr> (Some 0) =
     Some (Inl NotSet, \<lparr>heap = one_variable NaN False, cout = []\<rparr>) \<and>
   calc RightFirst \<lparr>heap = one_variable NaN False, cout = []\<rparr> (Some 0) =
     Some (Inl NotSet, \<lparr>heap = one_variable NaN False, cout = []\<rparr>)"
  by (simp add: one_variable_def VariableNode_set_def VariableNode_cache_def calc_def
      eval.simps deref_def)

text \<open>
  C7. In the shared-variable graph, whatever was cached before and whichever operand a
  product evaluates first: after \<^verbatim>\<open>a.set(5)\<close> the recalculation of \<^verbatim>\<open>E1\<close> returns 10,
  stores 10 and 15 in the two expressions and freezes \<^verbatim>\<open>a\<close>; the recalculation of
  \<^verbatim>\<open>E2\<close> that follows returns 15, from the cache.
\<close>

theorem shared_variable_scenario:
  "VariableNode_set (shared_heap va da m1 e1 m2 e2) (Some 0) (Num 5) =
     Some (shared_heap (Num 5) True m1 e1 m2 e2) \<and>
   EvaluationContext_calc ord shared_context
      \<lparr>heap = shared_heap (Num 5) True m1 e1 m2 e2, cout = out\<rparr> ''E1'' =
     Some (Inr (Num 10),
           \<lparr>heap = shared_heap (Num 5) False m1 (Num 10) m2 (Num 15),
            cout = out @ [''Using cache'']\<rparr>) \<and>
   EvaluationContext_calc ord shared_context
      \<lparr>heap = shared_heap (Num 5) False m1 (Num 10) m2 (Num 15),
       cout = out @ [''Using cache'']\<rparr> ''E2'' =
     Some (Inr (Num 15),
           \<lparr>heap = shared_heap (Num 5) False m1 (Num 10) m2 (Num 15),
            cout = out @ [''Using cache'', ''Using cache'', ''Using cache'', ''Using cache'']\<rparr>)"
  by (cases ord)
     (simp_all add: shared_heap_def shared_context_def VariableNode_set_def
        EvaluationContext_calc_def addExpression_def addVariable_def empty_context_def calc_def
        eval.simps needCalc.simps deref_def VariableNode_cache_def mul_def raise_or_def)

text \<open>
  C8, as the code has it. Take any history from the empty heap in which \<^verbatim>\<open>set\<close> is
  never called on the variable \<open>b\<close>, and any node \<open>a\<close> that has \<open>b\<close> in its operand
  subgraph. Then \<^verbatim>\<open>eval()\<close> and \<^verbatim>\<open>calc()\<close> on \<open>a\<close> fail with the same exception, and
  \<^verbatim>\<open>calc()\<close> stores nothing: the state is unchanged. The exception is \<open>NotSet\<close> when no
  function in the operand subgraph of \<open>a\<close> throws; otherwise it is \<open>NotSet\<close> or what a
  function has thrown. A recalculation of a context that has \<open>a\<close> among its expressions
  fails as well, whatever the name: not with \<open>NotFound\<close>, with no dirty flag changed,
  and with \<open>NotSet\<close> when no function of the graph throws.
\<close>

theorem NotSet_propagates:
  assumes "never_set b s" and "variant (heap s ! b) = VariableNode d nm"
    and "reach (heap s) a b"
  shows "\<exists>e. eval ord (heap s) (Some a) = Some (Inl e) \<and>
             calc ord s (Some a) = Some (Inl e, s) \<and>
             e \<noteq> NotFound \<and>
             ((\<forall>c. reach (heap s) a c \<longrightarrow> no_throw (variant (heap s ! c))) \<longrightarrow> e = NotSet) \<and>
             (\<forall>c name. Some a \<in> set (d_expressions c) \<longrightarrow>
                (\<forall>p \<in> set (d_expressions c). \<exists>a' < length (heap s). p = Some a') \<longrightarrow>
                (\<exists>e' s'. EvaluationContext_calc ord c s name = Some (Inl e', s') \<and>
                   e' \<noteq> NotFound \<and>
                   map variant (heap s') = map variant (heap s) \<and>
                   ((\<forall>c < length (heap s). no_throw (variant (heap s ! c))) \<longrightarrow>
                      e' = NotSet)))"
proof -
  from calc_fails_above [OF assms, of ord] obtain e
    where e: "eval ord (heap s) (Some a) = Some (Inl e)" "calc ord s (Some a) = Some (Inl e, s)"
      "e \<noteq> NotFound"
      "(\<forall>c. reach (heap s) a c \<longrightarrow> no_throw (variant (heap s ! c))) \<longrightarrow> e = NotSet"
    by blast
  from never_set_inv [OF assms(1)] have wf: "wf_heap (heap s)" by simp
  have ctx: "\<exists>e' s'. EvaluationContext_calc ord c s name = Some (Inl e', s') \<and>
                   e' \<noteq> NotFound \<and>
                   map variant (heap s') = map variant (heap s) \<and>
                   ((\<forall>c < length (heap s). no_throw (variant (heap s ! c))) \<longrightarrow> e' = NotSet)"
    if listed: "Some a \<in> set (d_expressions c)"
      and valid: "\<forall>p \<in> set (d_expressions c). \<exists>a' < length (heap s). p = Some a'"
    for c :: EvaluationContext and name
  proof -
    from calc_all_fails_above [OF assms listed valid, of ord] obtain e' s'
      where loop: "calc_all ord (d_expressions c) s = Some (Inl e', s')" and "e' \<noteq> NotFound"
      by blast
    moreover from loop have "EvaluationContext_calc ord c s name = Some (Inl e', s')"
      by (simp add: EvaluationContext_calc_def)
    moreover note calc_all_variant [OF loop]
    moreover have "e' = NotSet" if "\<forall>c < length (heap s). no_throw (variant (heap s ! c))"
      by (rule calc_all_no_throw [OF wf that valid loop])
    ultimately show ?thesis by blast
  qed
  from e ctx show ?thesis by blast
qed

theorem NotSet_propagates_witness:
  "never_set 0 \<lparr>heap = unset_heap, cout = []\<rparr> \<and>
   variant (unset_heap ! 0) = VariableNode True ''x'' \<and>
   reach unset_heap 4 0 \<and>
   no_throw (variant (unset_heap ! 2)) \<and>
   no_throw (variant (unset_heap ! 3)) \<and>
   eval LeftFirst unset_heap (Some 4) = Some (Inl NotSet) \<and>
   calc LeftFirst \<lparr>heap = unset_heap, cout = []\<rparr> (Some 4) =
     Some (Inl NotSet, \<lparr>heap = unset_heap, cout = []\<rparr>) \<and>
   Some 4 \<in> set (d_expressions (addExpression empty_context ''E'' (Some 4))) \<and>
   (\<exists>s'. EvaluationContext_calc LeftFirst (addExpression empty_context ''E'' (Some 4))
      \<lparr>heap = unset_heap, cout = []\<rparr> ''E'' = Some (Inl NotSet, s') \<and>
      map variant (heap s') = map variant unset_heap)"
proof -
  let ?s = "\<lparr>heap = unset_heap, cout = []\<rparr>"
  let ?c = "addExpression empty_context ''E'' (Some 4)"
  have var: "variant (heap ?s ! 0) = VariableNode True ''x''"
    by (simp add: unset_heap_def)
  have r: "reach (heap ?s) 4 0"
    using reach_unset_heap by simp
  have nt: "\<forall>c < length (heap ?s). no_throw (variant (heap ?s ! c))"
    by (simp add: unset_heap_def less_Suc_eq add_def neg_def all_conj_distrib)
  then have nt': "\<forall>c. reach (heap ?s) 4 c \<longrightarrow> no_throw (variant (heap ?s ! c))"
    using reach_length by blast
  have listed: "Some 4 \<in> set (d_expressions ?c)"
    by (simp add: addExpression_def empty_context_def)
  have valid: "\<forall>p \<in> set (d_expressions ?c). \<exists>a' < length (heap ?s). p = Some a'"
    by (simp add: addExpression_def empty_context_def unset_heap_def)
  from NotSet_propagates [OF never_set_unset_heap var r, of LeftFirst] obtain e
    where 1: "eval LeftFirst (heap ?s) (Some 4) = Some (Inl e)"
      and 2: "calc LeftFirst ?s (Some 4) = Some (Inl e, ?s)"
      and 3: "(\<forall>c. reach (heap ?s) 4 c \<longrightarrow> no_throw (variant (heap ?s ! c))) \<longrightarrow> e = NotSet"
      and 4: "\<forall>c name. Some 4 \<in> set (d_expressions c) \<longrightarrow>
                (\<forall>p \<in> set (d_expressions c). \<exists>a' < length (heap ?s). p = Some a') \<longrightarrow>
                (\<exists>e' s'. EvaluationContext_calc LeftFirst c ?s name = Some (Inl e', s') \<and>
                   e' \<noteq> NotFound \<and>
                   map variant (heap s') = map variant (heap ?s) \<and>
                   ((\<forall>c < length (heap ?s). no_throw (variant (heap ?s ! c))) \<longrightarrow>
                      e' = NotSet))"
    by blast
  from 3 nt' have e: "e = NotSet" by blast
  from 4 listed valid obtain e' s'
    where 5: "EvaluationContext_calc LeftFirst ?c ?s ''E'' = Some (Inl e', s')"
      and 6: "map variant (heap s') = map variant (heap ?s)"
      and 7: "(\<forall>c < length (heap ?s). no_throw (variant (heap ?s ! c))) \<longrightarrow> e' = NotSet"
    by blast
  from 7 nt have "e' = NotSet" by blast
  with 5 6 have 8: "\<exists>s'. EvaluationContext_calc LeftFirst ?c ?s ''E'' = Some (Inl NotSet, s') \<and>
      map variant (heap s') = map variant unset_heap"
    by auto
  have nt2: "no_throw (variant (unset_heap ! 2))"
    and nt3: "no_throw (variant (unset_heap ! 3))"
    by (simp_all add: unset_heap_def add_def neg_def)
  from never_set_unset_heap var r nt2 nt3 1 2 e listed 8 show ?thesis by simp
qed

text \<open>
  C8, as the claim states it, fails when a function throws before the variable is
  read. In this graph, built by the constructors with \<^verbatim>\<open>x\<close> never set, the node at
  address 5 has \<^verbatim>\<open>x\<close> in its operand subgraph, and next to \<^verbatim>\<open>x\<close> the reciprocal of the
  constant 0, once as left and once as right operand. Whichever operand a binary
  operator evaluates first, \<^verbatim>\<open>calc()\<close> on the node fails with the exception of the
  reciprocal, not with \<open>NotSet\<close>.
\<close>

theorem NotSet_preempted_by_throw:
  "never_set 0 \<lparr>heap = throw_heap, cout = []\<rparr> \<and>
   variant (throw_heap ! 0) = VariableNode True ''x'' \<and>
   reach throw_heap 5 0 \<and>
   calc LeftFirst \<lparr>heap = throw_heap, cout = []\<rparr> (Some 5) =
     Some (Inl (Thrown ''division by zero''), \<lparr>heap = throw_heap, cout = []\<rparr>) \<and>
   calc RightFirst \<lparr>heap = throw_heap, cout = []\<rparr> (Some 5) =
     Some (Inl (Thrown ''division by zero''), \<lparr>heap = throw_heap, cout = []\<rparr>)"
proof -
  have "variant (throw_heap ! 0) = VariableNode True ''x''"
    by (simp add: throw_heap_def)
  moreover have "calc LeftFirst \<lparr>heap = throw_heap, cout = []\<rparr> (Some 5) =
     Some (Inl (Thrown ''division by zero''), \<lparr>heap = throw_heap, cout = []\<rparr>)"
    by (simp add: throw_heap_def calc_def eval.simps deref_def recip_def add_def raise_or_def)
  moreover have "calc RightFirst \<lparr>heap = throw_heap, cout = []\<rparr> (Some 5) =
     Some (Inl (Thrown ''division by zero''), \<lparr>heap = throw_heap, cout = []\<rparr>)"
    by (simp add: throw_heap_def calc_def eval.simps deref_def recip_def add_def raise_or_def)
  ultimately show ?thesis
    using never_set_throw_heap reach_throw_heap by blast
qed

text \<open>
  C9. Looking up a name that is not in the map returns the null pointer and adds the
  name to the map with a null pointer, so the name is known afterwards. Nothing else
  in the context changes. The same holds for the variable map.
\<close>

theorem lookup_inserts_null:
  "(\<not> isKnownExpression c name \<longrightarrow>
      fst (getExpression c name) = None \<and>
      isKnownExpression (snd (getExpression c name)) name \<and>
      d_expressionMap (snd (getExpression c name)) = d_expressionMap c @ [(name, None)] \<and>
      d_expressions (snd (getExpression c name)) = d_expressions c \<and>
      d_variableMap (snd (getExpression c name)) = d_variableMap c) \<and>
   (\<not> isKnownVariable c name \<longrightarrow>
      fst (getVariable c name) = None \<and>
      isKnownVariable (snd (getVariable c name)) name \<and>
      d_variableMap (snd (getVariable c name)) = d_variableMap c @ [(name, None)] \<and>
      d_expressions (snd (getVariable c name)) = d_expressions c \<and>
      d_expressionMap (snd (getVariable c name)) = d_expressionMap c)"
  by (simp add: isKnownExpression_def isKnownVariable_def getExpression_def getVariable_def
      map_index_fresh)

theorem lookup_inserts_null_witness:
  "\<not> isKnownExpression dup_context ''F'' \<and>
   fst (getExpression dup_context ''F'') = None \<and>
   isKnownExpression (snd (getExpression dup_context ''F'')) ''F'' \<and>
   d_expressions (snd (getExpression dup_context ''F'')) = [Some 1] \<and>
   \<not> isKnownVariable dup_context ''x'' \<and>
   fst (getVariable dup_context ''x'') = None \<and>
   isKnownVariable (snd (getVariable dup_context ''x'')) ''x''"
  using lookup_inserts_null [of dup_context "''F''"] lookup_inserts_null [of dup_context "''x''"]
  by (simp add: isKnownExpression_def isKnownVariable_def dup_context_def empty_context_def
      addExpression_def)

text \<open>
  C10, as the code has it. Let a name be in the expression map, with its node \<open>old\<close> at
  index \<open>i\<close> of the list of expressions. Registering a node \<open>new\<close> under that name
  replaces the entry of the map (the keys stay as they are, a lookup returns the new
  node), leaves the variable map alone and appends the new node to the list, where
  \<open>old\<close> stays at index \<open>i\<close>. The first loop of a later recalculation is then: the
  \<^verbatim>\<open>calc()\<close> of the entries before \<open>i\<close>, the \<^verbatim>\<open>calc()\<close> of \<open>old\<close>, the \<^verbatim>\<open>calc()\<close> of the
  entries after \<open>i\<close> and the \<^verbatim>\<open>calc()\<close> of \<open>new\<close>, each of them reached only if all
  before it have returned. If the entries before \<open>i\<close> evaluate to values and \<open>old\<close> is
  stale and fails, the recalculation of any name fails with the exception of \<open>old\<close>, in
  the state the entries before \<open>i\<close> have left. If all entries, \<open>new\<close> included, evaluate
  to values and the variable map holds variables, the recalculation of the name
  returns the \<^verbatim>\<open>calc()\<close> of \<open>new\<close>, and the first loop has brought both \<open>old\<close> and \<open>new\<close>
  up to date: a node that was stale caches what \<^verbatim>\<open>eval()\<close> returns for it.
\<close>

theorem duplicate_registration:
  assumes reg: "map_of (d_expressionMap c) name = Some old"
    and pos: "i < length (d_expressions c)" and at: "d_expressions c ! i = old"
  shows "map_of (d_expressionMap (addExpression c name new)) name = Some new \<and>
         getExpression (addExpression c name new) name = (new, addExpression c name new) \<and>
         map fst (d_expressionMap (addExpression c name new)) = map fst (d_expressionMap c) \<and>
         d_variableMap (addExpression c name new) = d_variableMap c \<and>
         d_expressions (addExpression c name new) = d_expressions c @ [new] \<and>
         d_expressions (addExpression c name new) ! i = old \<and>
         d_expressions (addExpression c name new) ! length (d_expressions c) = new \<and>
         calc_all ord (d_expressions (addExpression c name new)) s =
           (case calc_all ord (take i (d_expressions c)) s of
              None \<Rightarrow> None
            | Some (Inl e, s1) \<Rightarrow> Some (Inl e, s1)
            | Some (Inr u, s1) \<Rightarrow>
               (case calc ord s1 old of
                  None \<Rightarrow> None
                | Some (Inl e, s2) \<Rightarrow> Some (Inl e, s2)
                | Some (Inr v, s2) \<Rightarrow>
                   (case calc_all ord (drop (Suc i) (d_expressions c)) s2 of
                      None \<Rightarrow> None
                    | Some (Inl e, s3) \<Rightarrow> Some (Inl e, s3)
                    | Some (Inr u, s3) \<Rightarrow>
                       (case calc ord s3 new of
                          None \<Rightarrow> None
                        | Some (Inl e, s4) \<Rightarrow> Some (Inl e, s4)
                        | Some (Inr v, s4) \<Rightarrow> Some (Inr (), s4))))) \<and>
         (\<forall>a e target. old = Some a \<longrightarrow>
            (\<forall>p \<in> set (take i (d_expressions c)). \<exists>x. eval ord (heap s) p = Some (Inr x)) \<longrightarrow>
            stale (heap s) a \<longrightarrow>
            eval ord (heap s) (Some a) = Some (Inl e) \<longrightarrow>
            (\<exists>s1. calc_all ord (take i (d_expressions c)) s = Some (Inr (), s1) \<and>
                  EvaluationContext_calc ord (addExpression c name new) s target =
                    Some (Inl e, s1))) \<and>
         (\<forall>a t. old = Some a \<longrightarrow> new = Some t \<longrightarrow>
            (\<forall>p \<in> set (d_expressions c @ [new]). \<exists>x. eval ord (heap s) p = Some (Inr x)) \<longrightarrow>
            (\<forall>kv \<in> set (d_variableMap c). \<exists>b d nm. snd kv = Some b \<and> b < length (heap s) \<and>
                 variant (heap s ! b) = VariableNode d nm) \<longrightarrow>
            (\<exists>s1 h2 v s'.
               calc_all ord (d_expressions (addExpression c name new)) s = Some (Inr (), s1) \<and>
               settled ord (heap s) a (d_cachedValue (heap s1 ! a)) \<and>
               settled ord (heap s) t (d_cachedValue (heap s1 ! t)) \<and>
               cache_all (d_variableMap c) (heap s1) = Some h2 \<and>
               d_cachedValue (h2 ! a) = d_cachedValue (heap s1 ! a) \<and>
               calc ord \<lparr>heap = h2, cout = cout s1\<rparr> (Some t) = Some (Inr v, s') \<and>
               EvaluationContext_calc ord (addExpression c name new) s name =
                 Some (Inr v, s')))"
proof -
  let ?c' = "addExpression c name new"
  have exprs: "d_expressions ?c' = d_expressions c @ [new]"
    and vmap: "d_variableMap ?c' = d_variableMap c"
    and found: "map_of (d_expressionMap ?c') name = Some new"
    by (simp_all add: addExpression_def update_conv')
  have lookup: "getExpression ?c' name = (new, ?c')"
    using reg by (simp add: addExpression_def getExpression_def map_index_def update_conv')
  have keys: "map fst (d_expressionMap ?c') = map fst (d_expressionMap c)"
    using reg by (simp add: addExpression_def map_fst_update)
  have kept: "d_expressions ?c' ! i = old" and last: "d_expressions ?c' ! length (d_expressions c) = new"
    using pos at by (simp_all add: exprs nth_append)
  have loop: "calc_all ord (d_expressions ?c') s =
      (case calc_all ord (take i (d_expressions c)) s of
              None \<Rightarrow> None
            | Some (Inl e, s1) \<Rightarrow> Some (Inl e, s1)
            | Some (Inr u, s1) \<Rightarrow>
               (case calc ord s1 old of
                  None \<Rightarrow> None
                | Some (Inl e, s2) \<Rightarrow> Some (Inl e, s2)
                | Some (Inr v, s2) \<Rightarrow>
                   (case calc_all ord (drop (Suc i) (d_expressions c)) s2 of
                      None \<Rightarrow> None
                    | Some (Inl e, s3) \<Rightarrow> Some (Inl e, s3)
                    | Some (Inr u, s3) \<Rightarrow>
                       (case calc ord s3 new of
                          None \<Rightarrow> None
                        | Some (Inl e, s4) \<Rightarrow> Some (Inl e, s4)
                        | Some (Inr v, s4) \<Rightarrow> Some (Inr (), s4)))))"
    unfolding exprs at [symmetric] by (rule calc_all_at [OF pos])
  have fails: "\<exists>s1. calc_all ord (take i (d_expressions c)) s = Some (Inr (), s1) \<and>
                  EvaluationContext_calc ord ?c' s target = Some (Inl e, s1)"
    if old: "old = Some a"
      and before: "\<forall>p \<in> set (take i (d_expressions c)). \<exists>x. eval ord (heap s) p = Some (Inr x)"
      and st: "stale (heap s) a"
      and ev: "eval ord (heap s) (Some a) = Some (Inl e)" for a e target
  proof -
    have split: "d_expressions ?c' =
        take i (d_expressions c) @ Some a # (drop (Suc i) (d_expressions c) @ [new])"
      using calc_all_at_split [OF pos, of new] at old by (simp add: exprs)
    from calc_all_first_failure [OF before st ev, of "drop (Suc i) (d_expressions c) @ [new]"]
    obtain s1 where 1: "calc_all ord (take i (d_expressions c)) s = Some (Inr (), s1)"
      and 2: "calc_all ord (take i (d_expressions c) @ Some a #
                (drop (Suc i) (d_expressions c) @ [new])) s = Some (Inl e, s1)"
      by blast
    from 2 split have "calc_all ord (d_expressions ?c') s = Some (Inl e, s1)" by simp
    then have "EvaluationContext_calc ord ?c' s target = Some (Inl e, s1)"
      by (simp add: EvaluationContext_calc_def)
    with 1 show ?thesis by blast
  qed
  have succeeds: "\<exists>s1 h2 v s'.
               calc_all ord (d_expressions ?c') s = Some (Inr (), s1) \<and>
               settled ord (heap s) a (d_cachedValue (heap s1 ! a)) \<and>
               settled ord (heap s) t (d_cachedValue (heap s1 ! t)) \<and>
               cache_all (d_variableMap c) (heap s1) = Some h2 \<and>
               d_cachedValue (h2 ! a) = d_cachedValue (heap s1 ! a) \<and>
               calc ord \<lparr>heap = h2, cout = cout s1\<rparr> (Some t) = Some (Inr v, s') \<and>
               EvaluationContext_calc ord ?c' s name = Some (Inr v, s')"
    if old: "old = Some a" and new: "new = Some t"
      and evals: "\<forall>p \<in> set (d_expressions c @ [new]). \<exists>x. eval ord (heap s) p = Some (Inr x)"
      and vars: "\<forall>kv \<in> set (d_variableMap c). \<exists>b d nm. snd kv = Some b \<and>
                   b < length (heap s) \<and> variant (heap s ! b) = VariableNode d nm" for a t
  proof -
    from evals have evals': "\<forall>p \<in> set (d_expressions ?c'). \<exists>x. eval ord (heap s) p = Some (Inr x)"
      unfolding exprs .
    from vars have vars': "\<forall>kv \<in> set (d_variableMap ?c'). \<exists>b d nm. snd kv = Some b \<and>
                   b < length (heap s) \<and> variant (heap s ! b) = VariableNode d nm"
      unfolding vmap .
    from found have target: "map_of (d_expressionMap ?c') name = Some (Some t)"
      unfolding new .
    have listed_t: "Some t \<in> set (d_expressions ?c')" unfolding exprs using new by simp
    have listed_a: "Some a \<in> set (d_expressions ?c')"
      unfolding exprs using at old nth_mem [OF pos] by simp
    from recalculation_steps [OF evals' vars' target listed_t] obtain s1 h2 v s'
      where 1: "calc_all ord (d_expressions ?c') s = Some (Inr (), s1)"
        and 2: "\<forall>a. Some a \<in> set (d_expressions ?c') \<longrightarrow>
                  settled ord (heap s) a (d_cachedValue (heap s1 ! a))"
        and 3: "cache_all (d_variableMap ?c') (heap s1) = Some h2"
        and 4: "\<forall>a. d_cachedValue (h2 ! a) = d_cachedValue (heap s1 ! a)"
        and 5: "calc ord \<lparr>heap = h2, cout = cout s1\<rparr> (Some t) = Some (Inr v, s')"
        and 6: "EvaluationContext_calc ord ?c' s name = Some (Inr v, s')"
      by blast
    from 2 listed_a listed_t have "settled ord (heap s) a (d_cachedValue (heap s1 ! a))"
      "settled ord (heap s) t (d_cachedValue (heap s1 ! t))" by blast+
    with 1 3 4 5 6 show ?thesis unfolding vmap by blast
  qed
  from found lookup keys vmap exprs kept last loop fails succeeds show ?thesis by blast
qed

theorem duplicate_registration_witness:
  "map_of (d_expressionMap dup_context) ''E'' = Some (Some 1) \<and>
   0 < length (d_expressions dup_context) \<and>
   d_expressions dup_context ! 0 = Some 1 \<and>
   getExpression (addExpression dup_context ''E'' (Some 3)) ''E'' =
     (Some 3, addExpression dup_context ''E'' (Some 3)) \<and>
   d_expressions (addExpression dup_context ''E'' (Some 3)) = [Some 1, Some 3] \<and>
   stale dup_heap 1 \<and>
   eval LeftFirst dup_heap (Some 1) = Some (Inl NotSet) \<and>
   EvaluationContext_calc LeftFirst (addExpression dup_context ''E'' (Some 3))
      \<lparr>heap = dup_heap, cout = []\<rparr> ''E'' =
     Some (Inl NotSet, \<lparr>heap = dup_heap, cout = []\<rparr>) \<and>
   map_of (d_expressionMap shared_context) ''E1'' = Some (Some 3) \<and>
   0 < length (d_expressions shared_context) \<and>
   d_expressions shared_context ! 0 = Some 3 \<and>
   d_expressions (addExpression shared_context ''E1'' (Some 6)) = [Some 3, Some 6, Some 6] \<and>
   map_of (d_expressionMap (addExpression shared_context ''E1'' (Some 6))) ''E1'' =
     Some (Some 6) \<and>
   stale (shared_heap (Num 5) True NaN NaN NaN NaN) 3 \<and>
   eval LeftFirst (shared_heap (Num 5) True NaN NaN NaN NaN) (Some 3) = Some (Inr (Num 10)) \<and>
   (\<exists>s1 h2 s'.
      calc_all LeftFirst (d_expressions (addExpression shared_context ''E1'' (Some 6)))
        \<lparr>heap = shared_heap (Num 5) True NaN NaN NaN NaN, cout = []\<rparr> = Some (Inr (), s1) \<and>
      d_cachedValue (heap s1 ! 3) = Num 10 \<and>
      cache_all (d_variableMap shared_context) (heap s1) = Some h2 \<and>
      d_cachedValue (h2 ! 3) = Num 10 \<and>
      EvaluationContext_calc LeftFirst (addExpression shared_context ''E1'' (Some 6))
        \<lparr>heap = shared_heap (Num 5) True NaN NaN NaN NaN, cout = []\<rparr> ''E1'' =
        Some (Inr (Num 15), s'))"
proof -
  let ?d = "\<lparr>heap = dup_heap, cout = []\<rparr>"
  have dreg: "map_of (d_expressionMap dup_context) ''E'' = Some (Some 1)"
    and dpos: "0 < length (d_expressions dup_context)"
    and dat: "d_expressions dup_context ! 0 = Some 1"
    by (simp_all add: dup_context_def addExpression_def empty_context_def)
  note dinst = duplicate_registration [OF dreg dpos dat, of "Some 3" LeftFirst ?d]
  have dst: "stale (heap ?d) 1" by (simp add: stale_def dup_heap_def)
  have dev: "eval LeftFirst (heap ?d) (Some 1) = Some (Inl NotSet)"
    by (simp add: dup_heap_def eval.simps deref_def)
  have dbefore: "\<forall>p \<in> set (take 0 (d_expressions dup_context)).
      \<exists>x. eval LeftFirst (heap ?d) p = Some (Inr x)"
    by simp
  from dinst have d1: "getExpression (addExpression dup_context ''E'' (Some 3)) ''E'' =
      (Some 3, addExpression dup_context ''E'' (Some 3))"
    by blast
  from dinst have "d_expressions (addExpression dup_context ''E'' (Some 3)) =
      d_expressions dup_context @ [Some 3]"
    by blast
  then have d2: "d_expressions (addExpression dup_context ''E'' (Some 3)) = [Some 1, Some 3]"
    by (simp add: dup_context_def addExpression_def empty_context_def)
  from dinst have "\<forall>a e target. Some 1 = Some a \<longrightarrow>
      (\<forall>p \<in> set (take 0 (d_expressions dup_context)).
          \<exists>x. eval LeftFirst (heap ?d) p = Some (Inr x)) \<longrightarrow>
      stale (heap ?d) a \<longrightarrow>
      eval LeftFirst (heap ?d) (Some a) = Some (Inl e) \<longrightarrow>
      (\<exists>s1. calc_all LeftFirst (take 0 (d_expressions dup_context)) ?d = Some (Inr (), s1) \<and>
            EvaluationContext_calc LeftFirst (addExpression dup_context ''E'' (Some 3)) ?d target =
              Some (Inl e, s1))"
    by blast
  with dbefore dst dev
  have "\<exists>s1. calc_all LeftFirst (take 0 (d_expressions dup_context)) ?d = Some (Inr (), s1) \<and>
      EvaluationContext_calc LeftFirst (addExpression dup_context ''E'' (Some 3)) ?d ''E'' =
        Some (Inl NotSet, s1)"
    by blast
  then have d3: "EvaluationContext_calc LeftFirst (addExpression dup_context ''E'' (Some 3)) ?d
      ''E'' = Some (Inl NotSet, ?d)"
    by auto
  let ?h = "shared_heap (Num 5) True NaN NaN NaN NaN"
  let ?s = "\<lparr>heap = ?h, cout = []\<rparr>"
  let ?c' = "addExpression shared_context ''E1'' (Some 6)"
  have exprs: "d_expressions shared_context = [Some 3, Some 6]"
    and vmap: "d_variableMap shared_context = [(''a'', Some 0)]"
    and sreg: "map_of (d_expressionMap shared_context) ''E1'' = Some (Some 3)"
    by (simp_all add: shared_context_def addExpression_def addVariable_def empty_context_def)
  have spos: "0 < length (d_expressions shared_context)"
    and sat: "d_expressions shared_context ! 0 = Some 3"
    by (simp_all add: exprs)
  note sinst = duplicate_registration [OF sreg spos sat, of "Some 6" LeftFirst ?s]
  have ev3: "eval LeftFirst (heap ?s) (Some 3) = Some (Inr (Num 10))"
    and ev6: "eval LeftFirst (heap ?s) (Some 6) = Some (Inr (Num 15))"
    and var0: "variant (heap ?s ! 0) = VariableNode True ''a''"
    by (simp_all add: shared_heap_def eval.simps deref_def mul_def raise_or_def)
  have sst: "stale (heap ?s) 3" by (simp add: stale_def shared_heap_def)
  have evals: "\<forall>p \<in> set (d_expressions shared_context @ [Some 6]).
      \<exists>x. eval LeftFirst (heap ?s) p = Some (Inr x)"
    unfolding exprs using ev3 ev6 by simp
  have vars: "\<forall>kv \<in> set (d_variableMap shared_context).
      \<exists>b d nm. snd kv = Some b \<and> b < length (heap ?s) \<and> variant (heap ?s ! b) = VariableNode d nm"
    unfolding vmap using var0 by (auto simp: shared_heap_def)
  from sinst have "d_expressions ?c' = d_expressions shared_context @ [Some 6]" by blast
  then have s1: "d_expressions ?c' = [Some 3, Some 6, Some 6]" by (simp add: exprs)
  from sinst have s2: "map_of (d_expressionMap ?c') ''E1'' = Some (Some 6)" by blast
  from sinst have "\<forall>a t. Some 3 = Some a \<longrightarrow> Some 6 = Some t \<longrightarrow>
      (\<forall>p \<in> set (d_expressions shared_context @ [Some 6]).
          \<exists>x. eval LeftFirst (heap ?s) p = Some (Inr x)) \<longrightarrow>
      (\<forall>kv \<in> set (d_variableMap shared_context). \<exists>b d nm. snd kv = Some b \<and>
          b < length (heap ?s) \<and> variant (heap ?s ! b) = VariableNode d nm) \<longrightarrow>
      (\<exists>s1 h2 v s'.
         calc_all LeftFirst (d_expressions ?c') ?s = Some (Inr (), s1) \<and>
         settled LeftFirst (heap ?s) a (d_cachedValue (heap s1 ! a)) \<and>
         settled LeftFirst (heap ?s) t (d_cachedValue (heap s1 ! t)) \<and>
         cache_all (d_variableMap shared_context) (heap s1) = Some h2 \<and>
         d_cachedValue (h2 ! a) = d_cachedValue (heap s1 ! a) \<and>
         calc LeftFirst \<lparr>heap = h2, cout = cout s1\<rparr> (Some t) = Some (Inr v, s') \<and>
         EvaluationContext_calc LeftFirst ?c' ?s ''E1'' = Some (Inr v, s'))"
    by blast
  with evals vars obtain t1 h2 v s'
    where a: "calc_all LeftFirst (d_expressions ?c') ?s = Some (Inr (), t1)"
      and b: "settled LeftFirst (heap ?s) 3 (d_cachedValue (heap t1 ! 3))"
      and c: "cache_all (d_variableMap shared_context) (heap t1) = Some h2"
      and d: "d_cachedValue (h2 ! 3) = d_cachedValue (heap t1 ! 3)"
      and e: "EvaluationContext_calc LeftFirst ?c' ?s ''E1'' = Some (Inr v, s')"
    by blast
  from b sst ev3 have f: "d_cachedValue (heap t1 ! 3) = Num 10" by (simp add: settled_def)
  have "EvaluationContext_calc LeftFirst ?c' ?s ''E1'' =
      Some (Inr (Num 15),
            \<lparr>heap = shared_heap (Num 5) False NaN (Num 10) NaN (Num 15),
             cout = [''Using cache'']\<rparr>)"
    by (simp add: shared_heap_def shared_context_def EvaluationContext_calc_def
        addExpression_def addVariable_def empty_context_def calc_def eval.simps needCalc.simps
        deref_def VariableNode_cache_def mul_def raise_or_def)
  with e have "v = Num 15" by auto
  with a c d e f have s3: "\<exists>s1 h2 s'.
      calc_all LeftFirst (d_expressions ?c') ?s = Some (Inr (), s1) \<and>
      d_cachedValue (heap s1 ! 3) = Num 10 \<and>
      cache_all (d_variableMap shared_context) (heap s1) = Some h2 \<and>
      d_cachedValue (h2 ! 3) = Num 10 \<and>
      EvaluationContext_calc LeftFirst ?c' ?s ''E1'' = Some (Inr (Num 15), s')"
    by auto
  from dreg dpos dat d1 d2 dst dev d3 sreg spos sat s1 s2 sst ev3 s3
  show ?thesis by simp
qed

text \<open>
  C10, as the claim states it, fails when an expression listed before the replaced one
  fails. Here \<^verbatim>\<open>F\<close>, over a variable that is never set, is registered first and \<^verbatim>\<open>E\<close>
  is registered twice. A \<^verbatim>\<open>calc()\<close> of the replaced expression would store 1 in it,
  but the recalculation fails with \<open>NotSet\<close> at \<^verbatim>\<open>F\<close> and leaves the heap as it was:
  neither the replaced expression nor the new one is evaluated.
\<close>

theorem blocked_duplicate_not_evaluated:
  "map_of (d_expressionMap blocked_context) ''E'' = Some (Some 3) \<and>
   d_expressions blocked_context = [Some 1, Some 3] \<and>
   d_expressions (addExpression blocked_context ''E'' (Some 5)) = [Some 1, Some 3, Some 5] \<and>
   map_of (d_expressionMap (addExpression blocked_context ''E'' (Some 5))) ''E'' =
     Some (Some 5) \<and>
   calc LeftFirst \<lparr>heap = blocked_heap, cout = []\<rparr> (Some 3) =
     Some (Inr (Num 1),
           \<lparr>heap = blocked_heap[3 := \<lparr>d_cachedValue = Num 1,
                                    variant = ExpressionNode (Some 2) ''E''\<rparr>],
            cout = []\<rparr>) \<and>
   blocked_heap[3 := \<lparr>d_cachedValue = Num 1, variant = ExpressionNode (Some 2) ''E''\<rparr>] \<noteq>
     blocked_heap \<and>
   EvaluationContext_calc LeftFirst (addExpression blocked_context ''E'' (Some 5))
      \<lparr>heap = blocked_heap, cout = []\<rparr> ''E'' =
     Some (Inl NotSet, \<lparr>heap = blocked_heap, cout = []\<rparr>) \<and>
   EvaluationContext_calc RightFirst (addExpression blocked_context ''E'' (Some 5))
      \<lparr>heap = blocked_heap, cout = []\<rparr> ''E'' =
     Some (Inl NotSet, \<lparr>heap = blocked_heap, cout = []\<rparr>)"
  by (simp add: blocked_heap_def blocked_context_def EvaluationContext_calc_def addExpression_def
      empty_context_def calc_def eval.simps needCalc.simps deref_def)

end
